theory Spec2Isabelle
  imports
    Complex_Main
    "HOL-Library.Signed_Division"
    "HOL-Library.Char_ord"
    "HOL-Library.List_Lexorder"
begin

section \<open>The assembly graph: nodes, edges and the store that holds them\<close>

text \<open>
  The C++ graph is a web of objects that point at each other: a node holds pointers to its
  incident edges and to its reverse-complement node, an edge holds pointers to its two end
  nodes and to its reverse-complement edge. Here a pointer to a node is a value of the type
  variable \<open>'n\<close>, a pointer to an edge a value of \<open>'e\<close>, and the graph is the store that maps
  every pointer to the object it points at. Pointer comparison (\<open>==\<close> on \<open>DeBruijnNode *\<close>) is
  equality on \<open>'n\<close>. The functions that walk the graph ask \<open>'n\<close> to be a finite type: a graph
  in memory has finitely many nodes.

  C++ \<open>int\<close> is modelled by \<open>int\<close>; lengths, coordinates and the overlap settings of a graph
  the program can hold are far from the 32-bit limits, and no function below relies on
  wrap-around. A \<open>double\<close> is modelled by the real number it holds; the rounding of the
  arithmetic on doubles is written out where the scorer computes its metrics.
\<close>

datatype EdgeOverlapType = UNKNOWN_OVERLAP | EXACT_OVERLAP | AUTO_DETERMINED_EXACT_OVERLAP

text \<open>
  \<open>DeBruijnNode\<close> (debruijnnode.h), the members the functions below read. The node's
  reverse-complement pointer is the field \<open>m_reverseComplement\<close>; the edge's member of the same
  name is the field \<open>m_reverseComplementEdge\<close>, since two records cannot share a field name.
\<close>

record ('n, 'e) DeBruijnNode =
  m_name :: string
  m_sequence :: string
  m_length :: int
  m_reverseComplement :: 'n
  m_edges :: "'e list"

record ('n, 'e) DeBruijnEdge =
  m_startingNode :: 'n
  m_endingNode :: 'n
  m_reverseComplementEdge :: 'e
  m_overlapType :: EdgeOverlapType
  m_overlap :: int

text \<open>
  \<open>AssemblyGraph\<close>: the two stores, and \<open>m_deBruijnGraphEdges\<close>, the graph's map from a pair
  of node pointers to the edge between them (querypath.cpp reads it through
  \<open>g_assemblyGraph\<close>).
\<close>

record ('n, 'e) AssemblyGraph =
  nodeStore :: "'n \<Rightarrow> ('n, 'e) DeBruijnNode"
  edgeStore :: "'e \<Rightarrow> ('n, 'e) DeBruijnEdge"
  m_deBruijnGraphEdges :: "('n \<times> 'n) \<Rightarrow> 'e option"

text \<open>The two settings \<open>autoDetermineExactOverlap\<close> reads from \<open>g_settings\<close>.\<close>

record Settings =
  minAutoFindEdgeOverlap :: int
  maxAutoFindEdgeOverlap :: int

subsection \<open>Node accessors (debruijnnode.h)\<close>

definition getName :: "('n, 'e) DeBruijnNode \<Rightarrow> string" where
  "getName node = m_name node"

definition getLength :: "('n, 'e) DeBruijnNode \<Rightarrow> int" where
  "getLength node = m_length node"

definition getReverseComplement :: "('n, 'e) DeBruijnNode \<Rightarrow> 'n" where
  "getReverseComplement node = m_reverseComplement node"

text \<open>
  \<open>char getBaseAt(int i) const
     {if (i >= 0 && i < m_sequence.size()) return m_sequence[i]; else return '\0';}\<close>
\<close>

definition getBaseAt :: "('n, 'e) DeBruijnNode \<Rightarrow> int \<Rightarrow> char" where
  "getBaseAt node i =
     (if i \<ge> 0 \<and> i < int (length (m_sequence node)) then m_sequence node ! nat i
      else CHR 0x00)"

text \<open>
  \<open>QString getSign() const
     {if (m_name.length() > 0) return m_name.right(1); else return "+";}\<close>
\<close>

definition getSign :: "('n, 'e) DeBruijnNode \<Rightarrow> string" where
  "getSign node = (if length (m_name node) > 0 then [last (m_name node)] else ''+'')"

subsection \<open>Exact overlap of an edge (debruijnedge.cpp)\<close>

text \<open>
  \<open>testExactOverlap\<close>: the loop
  \<open>for (int j = 0; j < overlap && !mismatchFound; ++j)\<close> with its two loop variables; the
  function returns the final \<open>mismatchFound\<close>.
\<close>

function testExactOverlap_loop ::
  "('n, 'e) DeBruijnNode \<Rightarrow> ('n, 'e) DeBruijnNode \<Rightarrow> int \<Rightarrow> int \<Rightarrow> int \<Rightarrow> bool \<Rightarrow> bool" where
  "testExactOverlap_loop startingNode endingNode seq1Offset overlap j mismatchFound =
     (if j < overlap \<and> \<not> mismatchFound then
        (let a = getBaseAt startingNode (seq1Offset + j);
             b = getBaseAt endingNode j
         in testExactOverlap_loop startingNode endingNode seq1Offset overlap (j + 1)
              (if a \<noteq> b then True else mismatchFound))
      else mismatchFound)"
  by pat_completeness auto
termination
  by (relation "measure (\<lambda>(s, e, off, overlap, j, m). nat (overlap - j))") auto

declare testExactOverlap_loop.simps [simp del]

definition testExactOverlap :: "('n, 'e) AssemblyGraph \<Rightarrow> 'e \<Rightarrow> int \<Rightarrow> bool" where
  "testExactOverlap G this overlap =
     (let startingNode = nodeStore G (m_startingNode (edgeStore G this));
          endingNode = nodeStore G (m_endingNode (edgeStore G this));
          seq1Offset = getLength startingNode - overlap
      in \<not> testExactOverlap_loop startingNode endingNode seq1Offset overlap 0 False)"

text \<open>
  The search loop of \<open>autoDetermineExactOverlap\<close>,
  \<open>for (int i = min; i <= max; ++i)\<close>, with its loop variables \<open>i\<close> and \<open>testOverlap\<close>.
  \<open>Some k\<close> is the \<open>return\<close> inside the loop after \<open>m_overlap = k\<close>; \<open>None\<close> is the loop
  running to its end.
\<close>

function autoDetermineExactOverlap_loop ::
  "('n, 'e) AssemblyGraph \<Rightarrow> 'e \<Rightarrow> int \<Rightarrow> int \<Rightarrow> int \<Rightarrow> int \<Rightarrow> int option" where
  "autoDetermineExactOverlap_loop G this minO maxO i testOverlap =
     (if i \<le> maxO then
        (if testExactOverlap G this testOverlap then Some testOverlap
         else autoDetermineExactOverlap_loop G this minO maxO (i + 1)
                (if testOverlap + 1 > maxO then minO else testOverlap + 1))
      else None)"
  by pat_completeness auto
termination
  by (relation "measure (\<lambda>(G, this, minO, maxO, i, t). nat (maxO + 1 - i))") auto

declare autoDetermineExactOverlap_loop.simps [simp del]

text \<open>
  \<open>autoDetermineExactOverlap\<close> changes the edge \<open>this\<close>; the model returns the changed edge.
  \<open>rnd\<close> is the value \<open>rand()\<close> returns, which is never negative. \<open>%\<close> on C++ ints truncates
  towards zero (\<open>smod\<close>), and \<open>rand() % 0\<close> is undefined: the model returns \<open>None\<close> there.
\<close>

definition autoDetermineExactOverlap ::
  "Settings \<Rightarrow> nat \<Rightarrow> ('n, 'e) AssemblyGraph \<Rightarrow> 'e \<Rightarrow> ('n, 'e) DeBruijnEdge option" where
  "autoDetermineExactOverlap g_settings rnd G this =
     (let e0 = (edgeStore G this)\<lparr>m_overlapType := AUTO_DETERMINED_EXACT_OVERLAP, m_overlap := 0\<rparr>;
          minPossibleOverlap = min (getLength (nodeStore G (m_startingNode e0)))
                                   (getLength (nodeStore G (m_endingNode e0)))
      in if minPossibleOverlap < minAutoFindEdgeOverlap g_settings then Some e0
         else
           (let minO = min minPossibleOverlap (minAutoFindEdgeOverlap g_settings);
                maxO = min minPossibleOverlap (maxAutoFindEdgeOverlap g_settings)
            in if maxO - minO + 1 = 0 then None
               else
                 (let testOverlap = minO + (int rnd smod (maxO - minO + 1))
                  in case autoDetermineExactOverlap_loop G this minO maxO minO testOverlap of
                       Some k \<Rightarrow> Some (e0\<lparr>m_overlap := k\<rparr>)
                     | None \<Rightarrow> Some e0)))"

subsection \<open>Tracing paths from an edge (debruijnedge.cpp)\<close>

text \<open>\<open>DeBruijnNode::edges()\<close>: the node's incident edges, in the order they were added.\<close>

definition edges :: "('n, 'e) AssemblyGraph \<Rightarrow> 'n \<Rightarrow> 'e list" where
  "edges G node = m_edges (nodeStore G node)"

definition findNextEdgesInPath :: "('n, 'e) AssemblyGraph \<Rightarrow> 'n \<Rightarrow> bool \<Rightarrow> 'e list" where
  "findNextEdgesInPath G nextNode forward =
     filter (\<lambda>edge. (forward \<and> m_startingNode (edgeStore G edge) = nextNode) \<or>
                    (\<not> forward \<and> m_endingNode (edgeStore G edge) = nextNode))
            (edges G nextNode)"

text \<open>\<open>timesNodeInPath\<close>: \<open>count += (i == node)\<close> for every \<open>i\<close> of the path.\<close>

fun timesNodeInPath :: "'n \<Rightarrow> 'n list \<Rightarrow> nat" where
  "timesNodeInPath node [] = 0"
| "timesNodeInPath node (i # path) = (if i = node then 1 else 0) + timesNodeInPath node path"

text \<open>The node an edge leads to in the direction of the trace.\<close>

definition nodeInDirection :: "('n, 'e) AssemblyGraph \<Rightarrow> bool \<Rightarrow> 'e \<Rightarrow> 'n" where
  "nodeInDirection G forward edge =
     (if forward then m_endingNode (edgeStore G edge) else m_startingNode (edgeStore G edge))"

text \<open>
  The measure of the two traversals: over all nodes, how many more times the node may still
  be appended to the path before it is in it twice. Every recursive call appends a node that
  was in the path fewer than two times, so the measure falls whatever \<open>stepsRemaining\<close> is.
\<close>

definition visitsLeft :: "'n::finite list \<Rightarrow> nat" where
  "visitsLeft path = (\<Sum>n\<in>UNIV. 2 - min 2 (timesNodeInPath n path))"

lemma timesNodeInPath_append:
  "timesNodeInPath n (xs @ ys) = timesNodeInPath n xs + timesNodeInPath n ys"
  by (induction xs) auto

lemma visitsLeft_append:
  assumes "timesNodeInPath t path < 2"
  shows "visitsLeft (path @ [t]) < visitsLeft path"
  unfolding visitsLeft_def
proof (rule sum_strict_mono_ex1)
  show "finite (UNIV :: 'a set)" by simp
  show "\<forall>n\<in>UNIV. 2 - min 2 (timesNodeInPath n (path @ [t])) \<le> 2 - min 2 (timesNodeInPath n path)"
    by (auto simp: timesNodeInPath_append)
  show "\<exists>n\<in>UNIV. 2 - min 2 (timesNodeInPath n (path @ [t])) < 2 - min 2 (timesNodeInPath n path)"
    using assms by (intro bexI [of _ t]) (auto simp: timesNodeInPath_append)
qed

lemma visitsLeft_next:
  "timesNodeInPath t (path @ [a]) < 2 \<Longrightarrow> visitsLeft (path @ [a, t]) < visitsLeft (path @ [a])"
  using visitsLeft_append [of t "path @ [a]"] by simp

text \<open>
  \<open>tracePaths\<close> appends the paths it finds to \<open>allPaths\<close>, which it receives by reference; the
  model returns the paths one call appends, in the order it appends them. \<open>pathSoFar\<close> is
  passed by value, so each call works on its own copy.
\<close>

function tracePaths ::
  "('n::finite, 'e) AssemblyGraph \<Rightarrow> 'e \<Rightarrow> bool \<Rightarrow> int \<Rightarrow> 'n \<Rightarrow> 'n list \<Rightarrow> 'n list list" where
  "tracePaths G this forward stepsRemaining startingNode pathSoFar =
     (let nextNode = nodeInDirection G forward this;
          pathSoFar' = pathSoFar @ [nextNode];
          stepsRemaining' = stepsRemaining - 1
      in if stepsRemaining' = 0 then [pathSoFar']
         else
           (let nextEdges = findNextEdgesInPath G nextNode forward
            in if nextEdges = [] then [pathSoFar']
               else concat (map (\<lambda>nextEdge.
                      if nodeInDirection G forward nextEdge = startingNode then [pathSoFar']
                      else if timesNodeInPath (nodeInDirection G forward nextEdge) pathSoFar' < 2
                      then tracePaths G nextEdge forward stepsRemaining' startingNode pathSoFar'
                      else []) nextEdges)))"
  by pat_completeness auto
termination
  by (relation "measure (\<lambda>(G, this, forward, steps, startingNode, pathSoFar).
         visitsLeft (pathSoFar @ [nodeInDirection G forward this]))")
     (auto intro: visitsLeft_next)

declare tracePaths.simps [simp del]

text \<open>
  \<open>leadsOnlyToNode\<close>. The loop over \<open>nextEdges\<close> returns false at the first edge whose
  recursive call returns false and true when there is none; edges leading to a node that is
  in the path twice are passed over.
\<close>

function leadsOnlyToNode ::
  "('n::finite, 'e) AssemblyGraph \<Rightarrow> 'e \<Rightarrow> bool \<Rightarrow> int \<Rightarrow> 'n \<Rightarrow> 'n list \<Rightarrow> bool \<Rightarrow> bool" where
  "leadsOnlyToNode G this forward stepsRemaining target pathSoFar includeReverseComplement =
     (let nextNode = nodeInDirection G forward this;
          pathSoFar' = pathSoFar @ [nextNode]
      in if nextNode = pathSoFar' ! 0 then False
         else if nextNode = target then True
         else if includeReverseComplement \<and>
                 getReverseComplement (nodeStore G nextNode) = target then True
         else
           (let stepsRemaining' = stepsRemaining - 1
            in if stepsRemaining' = 0 then False
               else
                 (let nextEdges = findNextEdgesInPath G nextNode forward
                  in if nextEdges = [] then False
                     else list_all (\<lambda>nextEdge.
                            if timesNodeInPath (nodeInDirection G forward nextEdge) pathSoFar' < 2
                            then leadsOnlyToNode G nextEdge forward stepsRemaining' target
                                   pathSoFar' includeReverseComplement
                            else True) nextEdges)))"
  by pat_completeness auto
termination
  by (relation "measure (\<lambda>(G, this, forward, steps, target, pathSoFar, rc).
         visitsLeft (pathSoFar @ [nodeInDirection G forward this]))")
     (auto intro: visitsLeft_next)

declare leadsOnlyToNode.simps [simp del]

subsection \<open>Positive edges (debruijnedge.cpp)\<close>

text \<open>
  Modelled from the spec: \<open>isPositiveNode\<close> and \<open>isNegativeNode\<close> are declared in
  debruijnnode.h and defined in a file that is not among the sources. The spec gives a node
  a name with a strand sign; the header's \<open>getSign\<close> reads the sign off the name's last
  character, and a node is positive when that sign is \<open>+\<close>, negative when it is \<open>-\<close>.
\<close>

definition isPositiveNode :: "('n, 'e) DeBruijnNode \<Rightarrow> bool" where
  "isPositiveNode node = (getSign node = ''+'')"

definition isNegativeNode :: "('n, 'e) DeBruijnNode \<Rightarrow> bool" where
  "isNegativeNode node = (getSign node = ''-'')"

text \<open>
  Modelled from the spec: \<open>isOwnReverseComplement\<close> is a member of the edge's header, which
  is not among the sources; an edge is its own reverse complement when its
  reverse-complement pointer points at the edge itself.
\<close>

definition isOwnReverseComplement :: "('n, 'e) AssemblyGraph \<Rightarrow> 'e \<Rightarrow> bool" where
  "isOwnReverseComplement G this = (this = m_reverseComplementEdge (edgeStore G this))"

text \<open>
  \<open>isPositiveEdge\<close>. \<open>QString\<close>'s \<open>>\<close> compares the names code unit by code unit; the
  model compares the character lists lexicographically.
\<close>

definition isPositiveEdge :: "('n, 'e) AssemblyGraph \<Rightarrow> 'e \<Rightarrow> bool" where
  "isPositiveEdge G this =
     (let startingNode = nodeStore G (m_startingNode (edgeStore G this));
          endingNode = nodeStore G (m_endingNode (edgeStore G this));
          rcEdge = edgeStore G (m_reverseComplementEdge (edgeStore G this))
      in if isPositiveNode startingNode \<and> isPositiveNode endingNode then True
         else if isNegativeNode startingNode \<and> isNegativeNode endingNode then False
         else if isOwnReverseComplement G this then True
         else getName startingNode > getName (nodeStore G (m_startingNode rcEdge)))"

section \<open>Scoring a path against a query (querypath.cpp)\<close>

subsection \<open>Numbers in scientific notation\<close>

text \<open>
  Modelled from the spec: the class \<open>SciNot\<close> is not among the sources. The spec describes it
  as a pair of a coefficient and a base-10 exponent that is renormalised so that the
  coefficient lies in \<open>[1,10)\<close>, with multiplication, exponentiation by a real power and
  comparison of the numbers the pairs stand for. querypath.cpp uses the constructor
  \<open>SciNot(double, int)\<close>, \<open>getCoefficient\<close>, \<open>getExponent\<close>, \<open>power\<close>, \<open>!=\<close> and \<open><\<close>.
\<close>

record SciNot =
  m_coefficient :: real
  m_exponent :: int

definition getCoefficient :: "SciNot \<Rightarrow> real" where
  "getCoefficient s = m_coefficient s"

definition getExponent :: "SciNot \<Rightarrow> int" where
  "getExponent s = m_exponent s"

lemma floor_tenth_less: "10 \<le> (x::real) \<Longrightarrow> nat \<lfloor>x / 10\<rfloor> < nat \<lfloor>x\<rfloor>"
proof -
  assume x: "10 \<le> x"
  have "real_of_int \<lfloor>x / 10\<rfloor> \<le> x / 10" by (rule of_int_floor_le)
  also have "\<dots> \<le> x - 9" using x by simp
  finally have a: "real_of_int \<lfloor>x / 10\<rfloor> \<le> x - 9" .
  have b: "x - 1 < real_of_int \<lfloor>x\<rfloor>" by linarith
  from a b have "real_of_int \<lfloor>x / 10\<rfloor> < real_of_int \<lfloor>x\<rfloor>" by linarith
  then have "\<lfloor>x / 10\<rfloor> < \<lfloor>x\<rfloor>" by (simp only: of_int_less_iff)
  moreover have "0 < \<lfloor>x\<rfloor>" using x by linarith
  ultimately show ?thesis by linarith
qed

lemma ceiling_tenth_less: "1 < (y::real) \<Longrightarrow> nat \<lceil>y / 10\<rceil> < nat \<lceil>y\<rceil>"
proof -
  assume y: "1 < y"
  have c2: "2 \<le> \<lceil>y\<rceil>" using y by linarith
  have "y / 10 \<le> real_of_int (\<lceil>y\<rceil> - 1)"
  proof (cases "y \<le> 10")
    case True
    from c2 have "(1::real) \<le> real_of_int (\<lceil>y\<rceil> - 1)" by linarith
    moreover from True have "y / 10 \<le> 1" by simp
    ultimately show ?thesis by linarith
  next
    case False
    then have a: "y / 10 \<le> y - 1" by linarith
    have b: "y \<le> real_of_int \<lceil>y\<rceil>" by (rule le_of_int_ceiling)
    have c: "real_of_int (\<lceil>y\<rceil> - 1) = real_of_int \<lceil>y\<rceil> - 1" by simp
    from a b c show ?thesis by linarith
  qed
  then have "\<lceil>y / 10\<rceil> \<le> \<lceil>y\<rceil> - 1" by (simp only: ceiling_le_iff)
  with c2 show ?thesis by linarith
qed

text \<open>
  Modelled from the spec: renormalising a pair so that its coefficient lies in \<open>[1,10)\<close>.
  Divide the coefficient by ten and raise the exponent while the coefficient is ten or
  more, \<dots>
\<close>

function normalise_down :: "real \<Rightarrow> int \<Rightarrow> real \<times> int" where
  "normalise_down c e = (if \<bar>c\<bar> \<ge> 10 then normalise_down (c / 10) (e + 1) else (c, e))"
  by pat_completeness auto
termination
  by (relation "measure (\<lambda>(c, e). nat \<lfloor>\<bar>c\<bar>\<rfloor>)") (auto dest: floor_tenth_less)

declare normalise_down.simps [simp del]

text \<open>
  Modelled from the spec: \<dots> and multiply it by ten and lower the exponent while it is
  below one.
\<close>

function normalise_up :: "real \<Rightarrow> int \<Rightarrow> real \<times> int" where
  "normalise_up c e = (if c \<noteq> 0 \<and> \<bar>c\<bar> < 1 then normalise_up (c * 10) (e - 1) else (c, e))"
  by pat_completeness auto
termination
proof (relation "measure (\<lambda>(c, e). nat \<lceil>1 / \<bar>c\<bar>\<rceil>)")
  show "wf (measure (\<lambda>(c, e). nat \<lceil>1 / \<bar>c\<bar>\<rceil>))" by simp
next
  fix c :: real and e :: int
  assume "c \<noteq> 0 \<and> \<bar>c\<bar> < 1"
  then have "1 < 1 / \<bar>c\<bar>" by simp
  from ceiling_tenth_less [OF this]
  show "((c * 10, e - 1), (c, e)) \<in> measure (\<lambda>(c, e). nat \<lceil>1 / \<bar>c\<bar>\<rceil>)"
    by (simp add: abs_mult)
qed

declare normalise_up.simps [simp del]

text \<open>
  Modelled from the spec: the constructor \<open>SciNot(double, int)\<close>, which renormalises the pair
  it is given; zero is the pair of coefficient 0 and exponent 0.
\<close>

definition SciNot_ctor :: "real \<Rightarrow> int \<Rightarrow> SciNot" where
  "SciNot_ctor coefficient exponent =
     (if coefficient = 0 then \<lparr>m_coefficient = 0, m_exponent = 0\<rparr>
      else (case normalise_down coefficient exponent of (c1, e1) \<Rightarrow>
              (case normalise_up c1 e1 of (c2, e2) \<Rightarrow>
                 \<lparr>m_coefficient = c2, m_exponent = e2\<rparr>)))"

text \<open>The invariant of the class: the pair is zero, or its coefficient lies in \<open>[1,10)\<close>.\<close>

definition isNormalised :: "SciNot \<Rightarrow> bool" where
  "isNormalised s =
     ((m_coefficient s = 0 \<and> m_exponent s = 0) \<or>
      (1 \<le> \<bar>m_coefficient s\<bar> \<and> \<bar>m_coefficient s\<bar> < 10))"



text \<open>
  Modelled from the spec: \<open>power\<close>, exponentiation by a real power. The exponent times the
  power is split into its whole part, which is the new exponent, and its fraction, which
  goes into the coefficient; the pair is then renormalised.
\<close>

definition SciNot_power :: "SciNot \<Rightarrow> real \<Rightarrow> SciNot" where
  "SciNot_power s p =
     SciNot_ctor (m_coefficient s powr p * 10 powr frac (real_of_int (m_exponent s) * p))
                 \<lfloor>real_of_int (m_exponent s) * p\<rfloor>"

subsection \<open>Hits, queries and paths\<close>

text \<open>
  A \<open>Hit\<close> as querypath.cpp reads it. Coordinates are 1-based and inclusive.
\<close>

record 'n Hit =
  m_node :: 'n
  m_nodeStart :: int
  m_nodeEnd :: int
  m_queryStart :: int
  m_queryEnd :: int
  m_percentIdentity :: real
  m_alignmentLength :: int
  m_numberMismatches :: int
  m_numberGapOpens :: int
  m_eValue :: SciNot

text \<open>
  Modelled from the spec: \<open>Hit::getNodeLength\<close> is not among the sources; it is the spec's
  \<open>hitNodeLength\<close>, the number of bases in the hit's node span.
\<close>

definition getNodeLength :: "'n Hit \<Rightarrow> int" where
  "getNodeLength hit = m_nodeEnd hit - m_nodeStart hit + 1"

datatype SequenceType = NUCLEOTIDE | PROTEIN

text \<open>
  A \<open>Query\<close>: its hits in the order they were added, its length, its sequence type, and
  \<open>fractionCoveredByHits\<close>, which the query computes for a list of hits (the function is
  not among the sources and is taken as part of the query).
\<close>

record 'n Query =
  q_hits :: "'n Hit list"
  q_length :: int
  q_sequenceType :: SequenceType
  q_fractionCoveredByHits :: "'n Hit list \<Rightarrow> real"

text \<open>
  A \<open>Path\<close>: its nodes, the positions \<open>getStartLocation().getPosition()\<close> and
  \<open>getEndLocation().getPosition()\<close> return, and the length \<open>getLength()\<close> returns (computed
  in a file that is not among the sources).
\<close>

record 'n Path =
  m_nodes :: "'n list"
  m_startPosition :: int
  m_endPosition :: int
  p_length :: int

record 'n QueryPath =
  m_path :: "'n Path"
  m_query :: "'n Query"
  m_hits :: "'n Hit list"

subsection \<open>Construction: filtering the hits onto the path\<close>

text \<open>
  The inner loop \<open>for (auto *hit : hitsThisNode)\<close> at path index \<open>i\<close>. Its state is the chain
  \<open>m_hits\<close> built so far and \<open>previousHit\<close>, which is \<open>None\<close> for the null pointer.
\<close>

fun QueryPath_hitLoop ::
  "'n Path \<Rightarrow> nat \<Rightarrow> 'n Hit list \<Rightarrow> 'n Hit list \<times> 'n Hit option \<Rightarrow>
   'n Hit list \<times> 'n Hit option" where
  "QueryPath_hitLoop path i [] st = st"
| "QueryPath_hitLoop path i (hit # hitsThisNode) (hits, previousHit) =
     (if (i \<noteq> 0 \<or> m_nodeStart hit \<ge> m_startPosition path) \<and>
         (int i \<noteq> int (length (m_nodes path)) - 1 \<or> m_nodeEnd hit \<le> m_endPosition path)
      then
        (if (case previousHit of None \<Rightarrow> True
             | Some prev \<Rightarrow> m_queryStart hit > m_queryStart prev)
         then QueryPath_hitLoop path i hitsThisNode (hits @ [hit], Some hit)
         else QueryPath_hitLoop path i hitsThisNode (hits, previousHit))
      else QueryPath_hitLoop path i hitsThisNode (hits, previousHit))"

text \<open>
  The body of the outer loop at path index \<open>i\<close>. \<open>std_sort\<close> stands for
  \<open>std::sort\<close> with the comparison by \<open>m_queryStart\<close>: the C++ standard leaves the order of
  hits with equal query start open, so the sort is a parameter here.
\<close>

definition QueryPath_nodeStep ::
  "('n Hit list \<Rightarrow> 'n Hit list) \<Rightarrow> 'n Path \<Rightarrow> 'n Query \<Rightarrow> nat \<Rightarrow>
   'n Hit list \<times> 'n Hit option \<Rightarrow> 'n Hit list \<times> 'n Hit option" where
  "QueryPath_nodeStep std_sort path query i st =
     (let node = m_nodes path ! i;
          hitsThisNode = filter (\<lambda>queryHit. m_node queryHit = node) (q_hits query)
      in QueryPath_hitLoop path i (std_sort hitsThisNode) st)"

definition QueryPath_ctor ::
  "('n Hit list \<Rightarrow> 'n Hit list) \<Rightarrow> 'n Path \<Rightarrow> 'n Query \<Rightarrow> 'n QueryPath" where
  "QueryPath_ctor std_sort path query =
     \<lparr>m_path = path, m_query = query,
      m_hits = fst (fold (QueryPath_nodeStep std_sort path query)
                      [0 ..< length (m_nodes path)] ([], None))\<rparr>"

text \<open>One sort that \<open>std::sort\<close> may be: the stable sort by query start.\<close>

definition sortByQueryStart :: "'n Hit list \<Rightarrow> 'n Hit list" where
  "sortByQueryStart hs = sort_key m_queryStart hs"

subsection \<open>Metrics of a query path\<close>

text \<open>
  What a C++ function does that a value of the result type cannot say:
  \<open>EmptyVectorAccess\<close> is \<open>front()\<close> or \<open>back()\<close> of an empty \<open>std::vector\<close>, which is
  undefined behaviour; \<open>NonFiniteDouble\<close> is a floating-point division by zero, whose result
  is an infinity or a NaN and not a real number.
\<close>

datatype failure = EmptyVectorAccess | NonFiniteDouble

text \<open>\<open>std::numeric_limits<double>::max()\<close>, the largest finite IEEE double.\<close>

definition DBL_MAX :: real where
  "DBL_MAX = (2 - 1 / 2 ^ 52) * 2 ^ 1023"

text \<open>
  A \<open>double\<close> is modelled by the real number it holds. The sum, the difference, the product
  and the quotient of two doubles are the exact results rounded to the nearest double, and
  to the even one when two doubles are equally near: the rounding of IEEE 754 that the
  program runs with. A double has 53 significant bits, so the double nearest to \<open>x\<close> is
  \<open>n * 2^(e - 52)\<close>, where \<open>2^e \<le> \<bar>x\<bar> < 2^(e + 1)\<close> and \<open>n\<close> is the integer nearest to
  \<open>x / 2^(e - 52)\<close>. The range of the exponent is not limited here, so the rounding is that
  of the machine for results whose size lies between the smallest normal double, \<open>2^(- 1022)\<close>,
  and the largest one, and for zero. An \<open>int\<close> converted to a \<open>double\<close> keeps its value.
\<close>

lemma floor_half_less: "2 \<le> (x::real) \<Longrightarrow> nat \<lfloor>x / 2\<rfloor> < nat \<lfloor>x\<rfloor>"
proof -
  assume x: "2 \<le> x"
  have "real_of_int \<lfloor>x / 2\<rfloor> \<le> x / 2" by (rule of_int_floor_le)
  also have "\<dots> \<le> x - 1" using x by simp
  finally have a: "real_of_int \<lfloor>x / 2\<rfloor> \<le> x - 1" .
  have b: "x - 1 < real_of_int \<lfloor>x\<rfloor>" by linarith
  from a b have "real_of_int \<lfloor>x / 2\<rfloor> < real_of_int \<lfloor>x\<rfloor>" by linarith
  then have "\<lfloor>x / 2\<rfloor> < \<lfloor>x\<rfloor>" by (simp only: of_int_less_iff)
  moreover have "0 < \<lfloor>x\<rfloor>" using x by linarith
  ultimately show ?thesis by linarith
qed

lemma ceiling_half_less: "1 < (y::real) \<Longrightarrow> nat \<lceil>y / 2\<rceil> < nat \<lceil>y\<rceil>"
proof -
  assume y: "1 < y"
  have c2: "2 \<le> \<lceil>y\<rceil>" using y by linarith
  have "y / 2 \<le> real_of_int (\<lceil>y\<rceil> - 1)"
  proof (cases "y \<le> 2")
    case True
    from c2 have "(1::real) \<le> real_of_int (\<lceil>y\<rceil> - 1)" by linarith
    moreover from True have "y / 2 \<le> 1" by simp
    ultimately show ?thesis by linarith
  next
    case False
    then have a: "y / 2 \<le> y - 1" by linarith
    have b: "y \<le> real_of_int \<lceil>y\<rceil>" by (rule le_of_int_ceiling)
    have c: "real_of_int (\<lceil>y\<rceil> - 1) = real_of_int \<lceil>y\<rceil> - 1" by simp
    from a b c show ?thesis by linarith
  qed
  then have "\<lceil>y / 2\<rceil> \<le> \<lceil>y\<rceil> - 1" by (simp only: ceiling_le_iff)
  with c2 show ?thesis by linarith
qed

text \<open>
  The mantissa \<open>m\<close> and the exponent \<open>e\<close> of a number \<open>m * 2^e\<close> with \<open>1 \<le> \<bar>m\<bar> < 2\<close>: halve
  the mantissa and raise the exponent while the mantissa is two or more, \<dots>
\<close>

function binade_down :: "real \<Rightarrow> int \<Rightarrow> real \<times> int" where
  "binade_down m e = (if \<bar>m\<bar> \<ge> 2 then binade_down (m / 2) (e + 1) else (m, e))"
  by pat_completeness auto
termination
  by (relation "measure (\<lambda>(m, e). nat \<lfloor>\<bar>m\<bar>\<rfloor>)") (auto dest: floor_half_less)

declare binade_down.simps [simp del]

text \<open>\<dots> and double it and lower the exponent while it is below one.\<close>

function binade_up :: "real \<Rightarrow> int \<Rightarrow> real \<times> int" where
  "binade_up m e = (if m \<noteq> 0 \<and> \<bar>m\<bar> < 1 then binade_up (m * 2) (e - 1) else (m, e))"
  by pat_completeness auto
termination
proof (relation "measure (\<lambda>(m, e). nat \<lceil>1 / \<bar>m\<bar>\<rceil>)")
  show "wf (measure (\<lambda>(m, e). nat \<lceil>1 / \<bar>m\<bar>\<rceil>))" by simp
next
  fix m :: real and e :: int
  assume "m \<noteq> 0 \<and> \<bar>m\<bar> < 1"
  then have "1 < 1 / \<bar>m\<bar>" by simp
  from ceiling_half_less [OF this]
  show "((m * 2, e - 1), (m, e)) \<in> measure (\<lambda>(m, e). nat \<lceil>1 / \<bar>m\<bar>\<rceil>)"
    by (simp add: abs_mult)
qed

declare binade_up.simps [simp del]

text \<open>The integer nearest to \<open>q\<close>, the even one of the two when \<open>q\<close> lies half way.\<close>

definition roundToEven :: "real \<Rightarrow> int" where
  "roundToEven q =
     (let f = \<lfloor>q\<rfloor>;
          r = q - real_of_int f
      in if r > 1 / 2 \<or> (r = 1 / 2 \<and> odd f) then f + 1 else f)"

definition roundToDouble :: "real \<Rightarrow> real" where
  "roundToDouble x =
     (if x = 0 then 0
      else (case binade_down x 0 of (m1, e1) \<Rightarrow>
              (case binade_up m1 e1 of (m, e) \<Rightarrow>
                 real_of_int (roundToEven (m * 2 ^ 52)) * 2 powi (e - 52))))"

definition double_plus :: "real \<Rightarrow> real \<Rightarrow> real" where
  "double_plus x y = roundToDouble (x + y)"

definition double_minus :: "real \<Rightarrow> real \<Rightarrow> real" where
  "double_minus x y = roundToDouble (x - y)"

definition double_times :: "real \<Rightarrow> real \<Rightarrow> real" where
  "double_times x y = roundToDouble (x * y)"

definition double_divide :: "real \<Rightarrow> real \<Rightarrow> real" where
  "double_divide x y = roundToDouble (x / y)"

text \<open>
  The loop of \<open>getMeanHitPercIdentity\<close> on the pair \<open>(totalHitLength, sum)\<close> (the name \<open>sum\<close>
  is taken in HOL, so the variable is \<open>sumSoFar\<close>): the product
  \<open>hitIdentity * hitLength\<close> and the sum \<open>sum += \<dots>\<close> are operations on doubles.
\<close>

fun getMeanHitPercIdentity_loop :: "'n Hit list \<Rightarrow> int \<times> real \<Rightarrow> int \<times> real" where
  "getMeanHitPercIdentity_loop [] st = st"
| "getMeanHitPercIdentity_loop (hit # hits) (totalHitLength, sumSoFar) =
     (let hitLength = m_alignmentLength hit;
          hitIdentity = m_percentIdentity hit
      in getMeanHitPercIdentity_loop hits
           (totalHitLength + hitLength,
            double_plus sumSoFar (double_times hitIdentity (real_of_int hitLength))))"

definition getMeanHitPercIdentity :: "'n QueryPath \<Rightarrow> real" where
  "getMeanHitPercIdentity this =
     (case getMeanHitPercIdentity_loop (m_hits this) (0, 0) of
        (totalHitLength, sumSoFar) \<Rightarrow>
          if totalHitLength = 0 then 0 else double_divide sumSoFar (real_of_int totalHitLength))"

text \<open>
  Modelled from the spec: \<open>getOverlap\<close> is declared in the edge's header, which is not among
  the sources; it returns the edge's overlap length, the member \<open>m_overlap\<close>.
\<close>

definition getOverlap :: "('n, 'e) DeBruijnEdge \<Rightarrow> int" where
  "getOverlap edge = m_overlap edge"

text \<open>
  \<open>getHitOverlap\<close>: the two branches that set the four coordinates, the branch that returns 0,
  and the code after them.
\<close>

definition getHitOverlap :: "('n, 'e) AssemblyGraph \<Rightarrow> 'n Hit \<Rightarrow> 'n Hit \<Rightarrow> int" where
  "getHitOverlap G hit1 hit2 =
     (case
        (if m_node hit1 = m_node hit2 then
           Some (m_nodeStart hit1 - 1, m_nodeEnd hit1, m_nodeStart hit2 - 1, m_nodeEnd hit2)
         else
           (case m_deBruijnGraphEdges G (m_node hit1, m_node hit2) of
              Some edge \<Rightarrow>
                (let overlap = getOverlap (edgeStore G edge);
                     hit1NodeLen = getLength (nodeStore G (m_node hit1))
                 in Some (m_nodeStart hit1, m_nodeEnd hit1,
                          m_nodeStart hit2 + hit1NodeLen - overlap,
                          m_nodeEnd hit2 + hit1NodeLen - overlap))
            | None \<Rightarrow> None))
      of
        None \<Rightarrow> 0
      | Some (hit1Start, hit1End, hit2Start, hit2End) \<Rightarrow>
          (let overlap = min hit1End hit2End - max hit1Start hit2Start
           in if overlap > 0 then overlap else 0))"

text \<open>
  The body of the loop of \<open>getEvalueProduct\<close> at index \<open>i\<close>, on the pair
  \<open>(coefficientProduct, exponentSum)\<close>. The division by \<open>thisHitLength\<close> is a floating-point
  division. The numbers of this loop come out of \<open>SciNot\<close> objects and go into them; they are
  computed in the arithmetic of that class, which is modelled over the real numbers.
\<close>

definition getEvalueProduct_step ::
  "('n, 'e) AssemblyGraph \<Rightarrow> 'n Hit list \<Rightarrow> nat \<Rightarrow> real \<times> int \<Rightarrow> failure + real \<times> int" where
  "getEvalueProduct_step G hits i acc =
     (case acc of (coefficientProduct, exponentSum) \<Rightarrow>
        (let thisHit = hits ! i;
             thisHitEValue = m_eValue thisHit;
             fromPrevious =
               (if i > 0 then
                  (let previousHit = hits ! (i - 1);
                       overlap = getHitOverlap G previousHit thisHit
                   in if overlap > 0 then real_of_int overlap / 2 else 0)
                else 0);
             fromNext =
               (if i < length hits - 1 then
                  (let nextHit = hits ! (i + 1);
                       overlap = getHitOverlap G thisHit nextHit
                   in if overlap > 0 then real_of_int overlap / 2 else 0)
                else 0);
             eValueLenToRemove = 0 + fromPrevious + fromNext
         in if eValueLenToRemove > 0 then
              (let thisHitLength = getNodeLength thisHit
               in if thisHitLength = 0 then Inl NonFiniteDouble
                  else
                    (let reduction = (real_of_int thisHitLength - eValueLenToRemove)
                                       / real_of_int thisHitLength;
                         discounted = SciNot_power thisHitEValue reduction
                     in Inr (coefficientProduct * getCoefficient discounted,
                             exponentSum + getExponent discounted)))
            else Inr (coefficientProduct * getCoefficient thisHitEValue,
                      exponentSum + getExponent thisHitEValue)))"

text \<open>A \<open>for\<close> loop whose body may fail: the first failure ends it.\<close>

fun forEach :: "('a \<Rightarrow> 's \<Rightarrow> failure + 's) \<Rightarrow> 'a list \<Rightarrow> 's \<Rightarrow> failure + 's" where
  "forEach body [] st = Inr st"
| "forEach body (x # xs) st =
     (case body x st of Inl f \<Rightarrow> Inl f | Inr st' \<Rightarrow> forEach body xs st')"

definition getEvalueProduct :: "('n, 'e) AssemblyGraph \<Rightarrow> 'n QueryPath \<Rightarrow> failure + SciNot" where
  "getEvalueProduct G this =
     (case forEach (getEvalueProduct_step G (m_hits this)) [0 ..< length (m_hits this)] (1, 0) of
        Inl f \<Rightarrow> Inl f
      | Inr (coefficientProduct, exponentSum) \<Rightarrow> Inr (SciNot_ctor coefficientProduct exponentSum))"

definition getHitQueryLength :: "'n QueryPath \<Rightarrow> failure + int" where
  "getHitQueryLength this =
     (if m_hits this = [] then Inl EmptyVectorAccess
      else
        (let queryStart = m_queryStart (hd (m_hits this));
             queryEnd = m_queryEnd (last (m_hits this));
             hitQueryLength = queryEnd - queryStart + 1
         in Inr (if q_sequenceType (m_query this) = PROTEIN then hitQueryLength * 3
                 else hitQueryLength)))"

definition getRelativeLengthDiscrepancy :: "'n QueryPath \<Rightarrow> failure + real" where
  "getRelativeLengthDiscrepancy this =
     (if m_hits this = [] then Inr DBL_MAX
      else
        (case getHitQueryLength this of
           Inl f \<Rightarrow> Inl f
         | Inr hitQueryLength \<Rightarrow>
             (let discrepancy = p_length (m_path this) - hitQueryLength
              in if hitQueryLength = 0 then Inl NonFiniteDouble
                 else Inr (double_divide (real_of_int discrepancy)
                             (real_of_int hitQueryLength)))))"

definition getRelativePathLength :: "'n QueryPath \<Rightarrow> failure + real" where
  "getRelativePathLength this =
     (case getHitQueryLength this of
        Inl f \<Rightarrow> Inl f
      | Inr hitQueryLength \<Rightarrow>
          if hitQueryLength = 0 then Inl NonFiniteDouble
          else Inr (double_divide (real_of_int (p_length (m_path this)))
                      (real_of_int hitQueryLength)))"

definition getAbsolutePathLengthDifference :: "'n QueryPath \<Rightarrow> failure + int" where
  "getAbsolutePathLengthDifference this =
     (case getHitQueryLength this of
        Inl f \<Rightarrow> Inl f
      | Inr hitQueryLength \<Rightarrow> Inr (p_length (m_path this) - hitQueryLength))"

definition queryStart :: "'n QueryPath \<Rightarrow> int" where
  "queryStart this = (if m_hits this = [] then - 1 else m_queryStart (hd (m_hits this)))"

definition queryEnd :: "'n QueryPath \<Rightarrow> int" where
  "queryEnd this = (if m_hits this = [] then - 1 else m_queryEnd (last (m_hits this)))"

definition getPathQueryCoverage :: "'n QueryPath \<Rightarrow> failure + real" where
  "getPathQueryCoverage this =
     (if m_hits this = [] then Inr 0
      else
        (let queryStart = m_queryStart (hd (m_hits this));
             queryEnd = m_queryEnd (last (m_hits this));
             queryLength = q_length (m_query this);
             notIncluded = (queryStart - 1) + (queryLength - queryEnd)
         in if queryLength = 0 then Inl NonFiniteDouble
            else Inr (double_minus 1 (double_divide (real_of_int notIncluded)
                                        (real_of_int queryLength)))))"


definition getTotalHitMismatches :: "'n QueryPath \<Rightarrow> int" where
  "getTotalHitMismatches this = sum_list (map m_numberMismatches (m_hits this))"

definition getTotalHitGapOpens :: "'n QueryPath \<Rightarrow> int" where
  "getTotalHitGapOpens this = sum_list (map m_numberGapOpens (m_hits this))"


section \<open>Notions the properties are stated with\<close>

text \<open>The length of the shorter of the two nodes of an edge.\<close>

definition shorterNodeLen :: "('n, 'e) AssemblyGraph \<Rightarrow> 'e \<Rightarrow> int" where
  "shorterNodeLen G this =
     min (getLength (nodeStore G (m_startingNode (edgeStore G this))))
         (getLength (nodeStore G (m_endingNode (edgeStore G this))))"

text \<open>
  The last \<open>k\<close> bases of the first sequence are the first \<open>k\<close> bases of the second, byte for
  byte.
\<close>

definition endMatchesStart :: "string \<Rightarrow> string \<Rightarrow> int \<Rightarrow> bool" where
  "endMatchesStart seq1 seq2 k = (drop (length seq1 - nat k) seq1 = take (nat k) seq2)"

text \<open>
  The candidate \<open>x\<close> of the search loop brought back into the range: the loop wraps around
  to the start of the range after its end.
\<close>

definition cyc :: "int \<Rightarrow> int \<Rightarrow> int \<Rightarrow> int" where
  "cyc minO maxO x = (if x > maxO then x - (maxO - minO + 1) else x)"

text \<open>
  A directed path of hops that starts with the edge at the head of the list, returns to
  \<open>origin\<close> with its last hop, and reaches neither \<open>target\<close> nor (when
  \<open>includeReverseComplement\<close> is set) a node whose reverse complement is \<open>target\<close> before
  that. Each edge after the first is one that \<open>findNextEdgesInPath\<close> gives for the node the
  edge before it leads to.
\<close>

fun returnsToOrigin ::
  "('n, 'e) AssemblyGraph \<Rightarrow> bool \<Rightarrow> 'n \<Rightarrow> bool \<Rightarrow> 'n \<Rightarrow> 'e list \<Rightarrow> bool" where
  "returnsToOrigin G forward target includeReverseComplement origin [] = False"
| "returnsToOrigin G forward target includeReverseComplement origin [e] =
     (nodeInDirection G forward e = origin)"
| "returnsToOrigin G forward target includeReverseComplement origin (e # e' # es) =
     (nodeInDirection G forward e \<noteq> target \<and>
      \<not> (includeReverseComplement \<and>
         getReverseComplement (nodeStore G (nodeInDirection G forward e)) = target) \<and>
      e' \<in> set (findNextEdgesInPath G (nodeInDirection G forward e) forward) \<and>
      returnsToOrigin G forward target includeReverseComplement origin (e' # es))"

text \<open>
  What \<open>std::sort\<close> with the comparison by \<open>m_queryStart\<close> guarantees of its result, as far
  as the properties below need it: the same hits, as many of them, in ascending order of
  query start.
\<close>

definition sortsByQueryStart :: "('n Hit list \<Rightarrow> 'n Hit list) \<Rightarrow> bool" where
  "sortsByQueryStart std_sort =
     (\<forall>hs. length (std_sort hs) = length hs \<and> set (std_sort hs) = set hs \<and>
           sorted (map m_queryStart (std_sort hs)))"

text \<open>
  The invariant of the two loops of the constructor: the chain is strictly increasing in
  query start, and \<open>previousHit\<close> is its last hit.
\<close>

definition chainInvariant :: "'n Hit list \<times> 'n Hit option \<Rightarrow> bool" where
  "chainInvariant st =
     (case st of (hits, previousHit) \<Rightarrow>
        sorted_wrt (<) (map m_queryStart hits) \<and>
        previousHit = (if hits = [] then None else Some (last hits)))"

text \<open>
  A hit of the query passes the test of the constructor at index \<open>i\<close> of the path: the node
  at that index is the hit's node, at the first index the hit starts at or after the path's
  start position, at the last index it ends at or before the path's end position.
\<close>

definition admittedAt :: "'n Path \<Rightarrow> 'n Query \<Rightarrow> 'n Hit \<Rightarrow> nat \<Rightarrow> bool" where
  "admittedAt path query hit i =
     (i < length (m_nodes path) \<and> m_nodes path ! i = m_node hit \<and> hit \<in> set (q_hits query) \<and>
      (i = 0 \<longrightarrow> m_nodeStart hit \<ge> m_startPosition path) \<and>
      (i = length (m_nodes path) - 1 \<longrightarrow> m_nodeEnd hit \<le> m_endPosition path))"


text \<open>
  \<dots> each as section 4.5 of the spec defines it from the hit chain, and not as a function
  of querypath.cpp returns it. The length to remove from hit \<open>i\<close> of the chain: half the
  overlap it shares with the previous hit plus half the overlap it shares with the next one
  (the overlap of two hits is the one \<open>getHitOverlap\<close> computes).
\<close>

definition overlapToRemove_spec :: "('n, 'e) AssemblyGraph \<Rightarrow> 'n Hit list \<Rightarrow> nat \<Rightarrow> real" where
  "overlapToRemove_spec G hits i =
     (if 0 < i then real_of_int (getHitOverlap G (hits ! (i - 1)) (hits ! i)) / 2 else 0) +
     (if i + 1 < length hits then real_of_int (getHitOverlap G (hits ! i) (hits ! (i + 1))) / 2
      else 0)"











text \<open>
  The invariants of the graph that the spec states for reverse complements: the reverse
  complement of a node's reverse complement is the node, and it has the opposite strand;
  the reverse complement of an edge's reverse complement is the edge, and it leads from the
  reverse complement of the edge's ending node to the reverse complement of its starting
  node.
\<close>

definition rcNode :: "('n, 'e) AssemblyGraph \<Rightarrow> 'n \<Rightarrow> 'n" where
  "rcNode G n = getReverseComplement (nodeStore G n)"

definition rcEdge :: "('n, 'e) AssemblyGraph \<Rightarrow> 'e \<Rightarrow> 'e" where
  "rcEdge G e = m_reverseComplementEdge (edgeStore G e)"

definition reverseComplementInvariant :: "('n, 'e) AssemblyGraph \<Rightarrow> bool" where
  "reverseComplementInvariant G =
     ((\<forall>n. rcNode G (rcNode G n) = n \<and>
           isPositiveNode (nodeStore G (rcNode G n)) = isNegativeNode (nodeStore G n) \<and>
           isNegativeNode (nodeStore G (rcNode G n)) = isPositiveNode (nodeStore G n)) \<and>
      (\<forall>e. rcEdge G (rcEdge G e) = e \<and>
           m_startingNode (edgeStore G (rcEdge G e)) = rcNode G (m_endingNode (edgeStore G e)) \<and>
           m_endingNode (edgeStore G (rcEdge G e)) = rcNode G (m_startingNode (edgeStore G e))))"

text \<open>
  A node's name identifies it, and the graph holds at most one edge for a pair of nodes
  (\<open>m_deBruijnGraphEdges\<close> is keyed by the pair).
\<close>

definition uniqueNames :: "('n, 'e) AssemblyGraph \<Rightarrow> bool" where
  "uniqueNames G =
     (\<forall>n1 n2. getName (nodeStore G n1) = getName (nodeStore G n2) \<longrightarrow> n1 = n2)"

definition uniqueEdges :: "('n, 'e) AssemblyGraph \<Rightarrow> bool" where
  "uniqueEdges G =
     (\<forall>e1 e2. m_startingNode (edgeStore G e1) = m_startingNode (edgeStore G e2) \<and>
              m_endingNode (edgeStore G e1) = m_endingNode (edgeStore G e2) \<longrightarrow> e1 = e2)"

section \<open>Example graphs, hits and query paths\<close>

text \<open>
  Three nodes on a cycle \<open>A \<rightarrow> B \<rightarrow> C \<rightarrow> A\<close>. The sequence of \<open>A\<close> ends with the whole sequence
  of \<open>B\<close>.
\<close>

datatype exNode = NodeA | NodeB | NodeC

instantiation exNode :: finite
begin
instance
proof
  have u: "(UNIV :: exNode set) = {NodeA, NodeB, NodeC}"
    by (auto intro: exNode.exhaust)
  show "finite (UNIV :: exNode set)" by (subst u) simp
qed
end

datatype exEdge = EdgeAB | EdgeBC | EdgeCA

definition cycleGraph :: "(exNode, exEdge) AssemblyGraph" where
  "cycleGraph =
     \<lparr>nodeStore = (\<lambda>n. case n of
          NodeA \<Rightarrow> \<lparr>m_name = ''A+'', m_sequence = ''AAACGT'', m_length = 6,
                     m_reverseComplement = NodeA, m_edges = [EdgeAB, EdgeCA]\<rparr>
        | NodeB \<Rightarrow> \<lparr>m_name = ''B+'', m_sequence = ''CGT'', m_length = 3,
                     m_reverseComplement = NodeB, m_edges = [EdgeAB, EdgeBC]\<rparr>
        | NodeC \<Rightarrow> \<lparr>m_name = ''C+'', m_sequence = ''TTAA'', m_length = 4,
                     m_reverseComplement = NodeC, m_edges = [EdgeBC, EdgeCA]\<rparr>),
      edgeStore = (\<lambda>e. case e of
          EdgeAB \<Rightarrow> \<lparr>m_startingNode = NodeA, m_endingNode = NodeB,
                      m_reverseComplementEdge = EdgeAB, m_overlapType = UNKNOWN_OVERLAP,
                      m_overlap = 0\<rparr>
        | EdgeBC \<Rightarrow> \<lparr>m_startingNode = NodeB, m_endingNode = NodeC,
                      m_reverseComplementEdge = EdgeBC, m_overlapType = UNKNOWN_OVERLAP,
                      m_overlap = 0\<rparr>
        | EdgeCA \<Rightarrow> \<lparr>m_startingNode = NodeC, m_endingNode = NodeA,
                      m_reverseComplementEdge = EdgeCA, m_overlapType = UNKNOWN_OVERLAP,
                      m_overlap = 0\<rparr>),
      m_deBruijnGraphEdges = (\<lambda>p.
          if p = (NodeA, NodeB) then Some EdgeAB
          else if p = (NodeB, NodeC) then Some EdgeBC
          else if p = (NodeC, NodeA) then Some EdgeCA
          else None)\<rparr>"

text \<open>
  A fork at \<open>A\<close>: one edge leads to \<open>B\<close>, another to \<open>C\<close>, from where an edge leads back to
  \<open>A\<close>.
\<close>

datatype forkEdge = ForkAB | ForkAC | ForkCA

definition forkGraph :: "(exNode, forkEdge) AssemblyGraph" where
  "forkGraph =
     \<lparr>nodeStore = (\<lambda>n. case n of
          NodeA \<Rightarrow> \<lparr>m_name = ''A+'', m_sequence = ''AAACGT'', m_length = 6,
                     m_reverseComplement = NodeA, m_edges = [ForkAB, ForkAC, ForkCA]\<rparr>
        | NodeB \<Rightarrow> \<lparr>m_name = ''B+'', m_sequence = ''CGT'', m_length = 3,
                     m_reverseComplement = NodeB, m_edges = [ForkAB]\<rparr>
        | NodeC \<Rightarrow> \<lparr>m_name = ''C+'', m_sequence = ''TTAA'', m_length = 4,
                     m_reverseComplement = NodeC, m_edges = [ForkAC, ForkCA]\<rparr>),
      edgeStore = (\<lambda>e. case e of
          ForkAB \<Rightarrow> \<lparr>m_startingNode = NodeA, m_endingNode = NodeB,
                      m_reverseComplementEdge = ForkAB, m_overlapType = UNKNOWN_OVERLAP,
                      m_overlap = 0\<rparr>
        | ForkAC \<Rightarrow> \<lparr>m_startingNode = NodeA, m_endingNode = NodeC,
                      m_reverseComplementEdge = ForkAC, m_overlapType = UNKNOWN_OVERLAP,
                      m_overlap = 0\<rparr>
        | ForkCA \<Rightarrow> \<lparr>m_startingNode = NodeC, m_endingNode = NodeA,
                      m_reverseComplementEdge = ForkCA, m_overlapType = UNKNOWN_OVERLAP,
                      m_overlap = 0\<rparr>),
      m_deBruijnGraphEdges = (\<lambda>p.
          if p = (NodeA, NodeB) then Some ForkAB
          else if p = (NodeA, NodeC) then Some ForkAC
          else if p = (NodeC, NodeA) then Some ForkCA
          else None)\<rparr>"

text \<open>
  The example of the spec: nodes \<open>1+\<close> of 100 bases and \<open>2+\<close> of 50 bases with their reverse
  complements, the edge \<open>1+ \<rightarrow> 2+\<close> with overlap 10 and its reverse complement \<open>2- \<rightarrow> 1-\<close>; and
  besides them the mixed-strand pair \<open>1+ \<rightarrow> 2-\<close>, \<open>2+ \<rightarrow> 1-\<close> and the edge \<open>1+ \<rightarrow> 1-\<close>, which is
  its own reverse complement.
\<close>

datatype strandNode = N1p | N1m | N2p | N2m

datatype strandEdge = E_1p_2p | E_2m_1m | E_1p_2m | E_2p_1m | E_1p_1m

definition strandGraph :: "(strandNode, strandEdge) AssemblyGraph" where
  "strandGraph =
     \<lparr>nodeStore = (\<lambda>n. case n of
          N1p \<Rightarrow> \<lparr>m_name = ''1+'', m_sequence = replicate 100 (CHR ''X''), m_length = 100,
                   m_reverseComplement = N1m, m_edges = [E_1p_2p, E_1p_2m, E_1p_1m]\<rparr>
        | N1m \<Rightarrow> \<lparr>m_name = ''1-'', m_sequence = replicate 100 (CHR ''X''), m_length = 100,
                   m_reverseComplement = N1p, m_edges = [E_2m_1m, E_2p_1m, E_1p_1m]\<rparr>
        | N2p \<Rightarrow> \<lparr>m_name = ''2+'', m_sequence = replicate 50 (CHR ''X''), m_length = 50,
                   m_reverseComplement = N2m, m_edges = [E_1p_2p, E_2p_1m]\<rparr>
        | N2m \<Rightarrow> \<lparr>m_name = ''2-'', m_sequence = replicate 50 (CHR ''X''), m_length = 50,
                   m_reverseComplement = N2p, m_edges = [E_2m_1m, E_1p_2m]\<rparr>),
      edgeStore = (\<lambda>e. case e of
          E_1p_2p \<Rightarrow> \<lparr>m_startingNode = N1p, m_endingNode = N2p,
                       m_reverseComplementEdge = E_2m_1m, m_overlapType = EXACT_OVERLAP,
                       m_overlap = 10\<rparr>
        | E_2m_1m \<Rightarrow> \<lparr>m_startingNode = N2m, m_endingNode = N1m,
                       m_reverseComplementEdge = E_1p_2p, m_overlapType = EXACT_OVERLAP,
                       m_overlap = 10\<rparr>
        | E_1p_2m \<Rightarrow> \<lparr>m_startingNode = N1p, m_endingNode = N2m,
                       m_reverseComplementEdge = E_2p_1m, m_overlapType = EXACT_OVERLAP,
                       m_overlap = 10\<rparr>
        | E_2p_1m \<Rightarrow> \<lparr>m_startingNode = N2p, m_endingNode = N1m,
                       m_reverseComplementEdge = E_1p_2m, m_overlapType = EXACT_OVERLAP,
                       m_overlap = 10\<rparr>
        | E_1p_1m \<Rightarrow> \<lparr>m_startingNode = N1p, m_endingNode = N1m,
                       m_reverseComplementEdge = E_1p_1m, m_overlapType = EXACT_OVERLAP,
                       m_overlap = 10\<rparr>),
      m_deBruijnGraphEdges = (\<lambda>p.
          if p = (N1p, N2p) then Some E_1p_2p
          else if p = (N2m, N1m) then Some E_2m_1m
          else if p = (N1p, N2m) then Some E_1p_2m
          else if p = (N2p, N1m) then Some E_2p_1m
          else if p = (N1p, N1m) then Some E_1p_1m
          else None)\<rparr>"

text \<open>
  The two hits of the spec's example, the path \<open>1+, 2+\<close> and the query that owns the hits.
\<close>

definition hitOn1 :: "strandNode Hit" where
  "hitOn1 =
     \<lparr>m_node = N1p, m_nodeStart = 81, m_nodeEnd = 100, m_queryStart = 1, m_queryEnd = 20,
      m_percentIdentity = 100, m_alignmentLength = 20, m_numberMismatches = 0,
      m_numberGapOpens = 0, m_eValue = \<lparr>m_coefficient = 1, m_exponent = - 50\<rparr>\<rparr>"

definition hitOn2 :: "strandNode Hit" where
  "hitOn2 =
     \<lparr>m_node = N2p, m_nodeStart = 1, m_nodeEnd = 30, m_queryStart = 21, m_queryEnd = 50,
      m_percentIdentity = 100, m_alignmentLength = 30, m_numberMismatches = 0,
      m_numberGapOpens = 0, m_eValue = \<lparr>m_coefficient = 1, m_exponent = - 10\<rparr>\<rparr>"

definition path12 :: "strandNode Path" where
  "path12 = \<lparr>m_nodes = [N1p, N2p], m_startPosition = 1, m_endPosition = 50, p_length = 140\<rparr>"

definition query12 :: "strandNode Query" where
  "query12 = \<lparr>q_hits = [hitOn1, hitOn2], q_length = 50, q_sequenceType = NUCLEOTIDE,
              q_fractionCoveredByHits = (\<lambda>hits. 1)\<rparr>"

text \<open>
  The same two hits with their places in the query exchanged, so that the hit on the second
  node starts earlier in the query than the hit on the first; and the path clipped to start
  at base 90 of its first node, after the start of the hit on that node.
\<close>

definition lateHitOn1 :: "strandNode Hit" where
  "lateHitOn1 = hitOn1\<lparr>m_queryStart := 21, m_queryEnd := 40\<rparr>"

definition earlyHitOn2 :: "strandNode Hit" where
  "earlyHitOn2 = hitOn2\<lparr>m_queryStart := 1, m_queryEnd := 30\<rparr>"

definition queryBackwards :: "strandNode Query" where
  "queryBackwards = query12\<lparr>q_hits := [lateHitOn1, earlyHitOn2]\<rparr>"

definition clippedPath12 :: "strandNode Path" where
  "clippedPath12 = path12\<lparr>m_startPosition := 90, p_length := 51\<rparr>"

text \<open>
  Query paths over the example: one whose chain is the hit on \<open>1+\<close> alone, one whose chain
  is the same hit with the e-value \<open>1e-10\<close> in place of \<open>1e-50\<close>, and the one constructed
  from a query that has no hits.
\<close>

definition singleHitQueryPath :: "strandNode QueryPath" where
  "singleHitQueryPath = \<lparr>m_path = path12, m_query = query12, m_hits = [hitOn1]\<rparr>"



definition emptyQueryPath :: "strandNode QueryPath" where
  "emptyQueryPath = QueryPath_ctor sortByQueryStart path12 (query12\<lparr>q_hits := []\<rparr>)"










text \<open>
  The fork with \<open>B\<close> and \<open>C\<close> as the reverse complements of each other.
\<close>

definition pairedForkGraph :: "(exNode, forkEdge) AssemblyGraph" where
  "pairedForkGraph =
     forkGraph\<lparr>nodeStore := (\<lambda>n. (nodeStore forkGraph n)
        \<lparr>m_reverseComplement := (case n of NodeA \<Rightarrow> NodeA | NodeB \<Rightarrow> NodeC | NodeC \<Rightarrow> NodeB)\<rparr>)\<rparr>"

section \<open>The overlap resolver\<close>

lemmas example_defs = path12_def query12_def queryBackwards_def clippedPath12_def lateHitOn1_def
  earlyHitOn2_def hitOn1_def hitOn2_def

subsection \<open>What \<open>testExactOverlap\<close> tests\<close>

lemma testExactOverlap_loop_iff:
  "testExactOverlap_loop s e off ov j mm \<longleftrightarrow>
     mm \<or> (\<exists>k. j \<le> k \<and> k < ov \<and> getBaseAt s (off + k) \<noteq> getBaseAt e k)"
proof (induction s e off ov j mm rule: testExactOverlap_loop.induct)
  case (1 s e off ov j mm)
  show ?case
  proof (cases "j < ov \<and> \<not> mm")
    case True
    have "(\<exists>k. j \<le> k \<and> k < ov \<and> getBaseAt s (off + k) \<noteq> getBaseAt e k) \<longleftrightarrow>
          getBaseAt s (off + j) \<noteq> getBaseAt e j \<or>
          (\<exists>k. j + 1 \<le> k \<and> k < ov \<and> getBaseAt s (off + k) \<noteq> getBaseAt e k)"
      (is "?L \<longleftrightarrow> ?R")
    proof
      assume ?L
      then obtain k where k: "j \<le> k" "k < ov" "getBaseAt s (off + k) \<noteq> getBaseAt e k" by blast
      show ?R
      proof (cases "k = j")
        case True with k show ?thesis by simp
      next
        case False with k have "j + 1 \<le> k" by simp
        with k show ?thesis by blast
      qed
    next
      assume ?R
      then show ?L
      proof
        assume "getBaseAt s (off + j) \<noteq> getBaseAt e j"
        with True show ?L by (intro exI [of _ j]) simp
      next
        assume "\<exists>k. j + 1 \<le> k \<and> k < ov \<and> getBaseAt s (off + k) \<noteq> getBaseAt e k"
        then obtain k where "j + 1 \<le> k" "k < ov" "getBaseAt s (off + k) \<noteq> getBaseAt e k" by blast
        then show ?L by (intro exI [of _ k]) simp
      qed
    qed
    with True "1.IH" [OF True refl refl] show ?thesis
      by (subst testExactOverlap_loop.simps) (simp add: Let_def)
  next
    case False
    then show ?thesis
      by (subst testExactOverlap_loop.simps) auto
  qed
qed

lemma testExactOverlap_iff:
  "testExactOverlap G this ov \<longleftrightarrow>
     (\<forall>k. 0 \<le> k \<and> k < ov \<longrightarrow>
        getBaseAt (nodeStore G (m_startingNode (edgeStore G this)))
                  (getLength (nodeStore G (m_startingNode (edgeStore G this))) - ov + k)
        = getBaseAt (nodeStore G (m_endingNode (edgeStore G this))) k)"
  unfolding testExactOverlap_def Let_def testExactOverlap_loop_iff by auto

lemma testExactOverlap_sequences:
  fixes G :: "('n, 'e) AssemblyGraph"
  assumes len: "m_length (nodeStore G (m_startingNode (edgeStore G this))) =
                int (length (m_sequence (nodeStore G (m_startingNode (edgeStore G this)))))"
    and k: "0 \<le> k" "k \<le> int (length (m_sequence (nodeStore G (m_startingNode (edgeStore G this)))))"
           "k \<le> int (length (m_sequence (nodeStore G (m_endingNode (edgeStore G this)))))"
  shows "testExactOverlap G this k \<longleftrightarrow>
         endMatchesStart (m_sequence (nodeStore G (m_startingNode (edgeStore G this))))
                         (m_sequence (nodeStore G (m_endingNode (edgeStore G this)))) k"
proof -
  define s1 where "s1 = m_sequence (nodeStore G (m_startingNode (edgeStore G this)))"
  define s2 where "s2 = m_sequence (nodeStore G (m_endingNode (edgeStore G this)))"
  define n where "n = nat k"
  have n: "n \<le> length s1" "n \<le> length s2" "k = int n"
    using k by (simp_all add: n_def s1_def s2_def)
  have base1: "getBaseAt (nodeStore G (m_startingNode (edgeStore G this))) (int (length s1) - k + int j)
              = s1 ! (length s1 - n + j)" if "j < n" for j
  proof -
    have "int (length s1) - k + int j = int (length s1 - n + j)" using n that by simp
    moreover have "length s1 - n + j < length s1" using n that by simp
    ultimately show ?thesis
      unfolding getBaseAt_def s1_def [symmetric] by (simp only: nat_int) simp
  qed
  have base2: "getBaseAt (nodeStore G (m_endingNode (edgeStore G this))) (int j) = s2 ! j"
    if "j < n" for j
    using n that by (simp add: getBaseAt_def s2_def)
  have "testExactOverlap G this k \<longleftrightarrow> (\<forall>j<n. s1 ! (length s1 - n + j) = s2 ! j)"
  proof
    assume t: "testExactOverlap G this k"
    show "\<forall>j<n. s1 ! (length s1 - n + j) = s2 ! j"
    proof (intro allI impI)
      fix j assume j: "j < n"
      from t [unfolded testExactOverlap_iff, rule_format, of "int j"] j n
      have "getBaseAt (nodeStore G (m_startingNode (edgeStore G this))) (int (length s1) - k + int j)
            = getBaseAt (nodeStore G (m_endingNode (edgeStore G this))) (int j)"
        by (simp add: getLength_def len s1_def)
      with base1 [OF j] base2 [OF j] show "s1 ! (length s1 - n + j) = s2 ! j" by simp
    qed
  next
    assume a: "\<forall>j<n. s1 ! (length s1 - n + j) = s2 ! j"
    show "testExactOverlap G this k"
      unfolding testExactOverlap_iff
    proof (intro allI impI)
      fix i :: int assume i: "0 \<le> i \<and> i < k"
      define j where "j = nat i"
      from i n have j: "j < n" "i = int j" by (simp_all add: j_def nat_less_iff)
      from a j have "s1 ! (length s1 - n + j) = s2 ! j" by simp
      with base1 [OF j(1)] base2 [OF j(1)] j(2)
      show "getBaseAt (nodeStore G (m_startingNode (edgeStore G this)))
              (getLength (nodeStore G (m_startingNode (edgeStore G this))) - k + i)
            = getBaseAt (nodeStore G (m_endingNode (edgeStore G this))) i"
        by (simp add: getLength_def len s1_def)
    qed
  qed
  also have "\<dots> \<longleftrightarrow> drop (length s1 - n) s1 = take n s2"
  proof
    assume a: "\<forall>j<n. s1 ! (length s1 - n + j) = s2 ! j"
    show "drop (length s1 - n) s1 = take n s2"
    proof (rule nth_equalityI)
      show "length (drop (length s1 - n) s1) = length (take n s2)" using n by simp
    next
      fix j assume "j < length (drop (length s1 - n) s1)"
      with n have "j < n" by simp
      with a n show "drop (length s1 - n) s1 ! j = take n s2 ! j" by simp
    qed
  next
    assume e: "drop (length s1 - n) s1 = take n s2"
    show "\<forall>j<n. s1 ! (length s1 - n + j) = s2 ! j"
    proof (intro allI impI)
      fix j assume j: "j < n"
      from e have "drop (length s1 - n) s1 ! j = take n s2 ! j" by simp
      with j n show "s1 ! (length s1 - n + j) = s2 ! j" by simp
    qed
  qed
  finally show ?thesis
    by (simp add: endMatchesStart_def s1_def s2_def n_def)
qed

subsection \<open>The search loop tries every candidate of the range\<close>

lemma autoDetermineExactOverlap_loop_sound:
  "autoDetermineExactOverlap_loop G this minO maxO i t = Some k \<Longrightarrow>
   minO \<le> t \<Longrightarrow> t \<le> maxO \<Longrightarrow> minO \<le> k \<and> k \<le> maxO \<and> testExactOverlap G this k"
proof (induction G this minO maxO i t rule: autoDetermineExactOverlap_loop.induct)
  case (1 G this minO maxO i t)
  from "1.prems"(1) have i: "i \<le> maxO"
    by (subst (asm) autoDetermineExactOverlap_loop.simps) (auto split: if_splits)
  show ?case
  proof (cases "testExactOverlap G this t")
    case True
    with i "1.prems" show ?thesis
      by (subst (asm) autoDetermineExactOverlap_loop.simps) auto
  next
    case False
    with i "1.prems"(1)
    have "autoDetermineExactOverlap_loop G this minO maxO (i + 1)
            (if t + 1 > maxO then minO else t + 1) = Some k"
      by (subst (asm) autoDetermineExactOverlap_loop.simps) auto
    from "1.IH" [OF i False this] "1.prems"(2,3) show ?thesis by auto
  qed
qed

lemma autoDetermineExactOverlap_loop_complete:
  "autoDetermineExactOverlap_loop G this minO maxO i t = None \<Longrightarrow>
   minO \<le> t \<Longrightarrow> t \<le> maxO \<Longrightarrow> minO \<le> i \<Longrightarrow> 0 \<le> d \<Longrightarrow> d \<le> maxO - i \<Longrightarrow>
   \<not> testExactOverlap G this (cyc minO maxO (t + d))"
proof (induction G this minO maxO i t arbitrary: d rule: autoDetermineExactOverlap_loop.induct)
  case (1 G this minO maxO i t)
  from "1.prems" have i: "i \<le> maxO" by simp
  from "1.prems"(1) i have nt: "\<not> testExactOverlap G this t"
    by (subst (asm) autoDetermineExactOverlap_loop.simps) (auto split: if_splits)
  with "1.prems"(1) i
  have rec: "autoDetermineExactOverlap_loop G this minO maxO (i + 1)
            (if t + 1 > maxO then minO else t + 1) = None"
    by (subst (asm) autoDetermineExactOverlap_loop.simps) auto
  show ?case
  proof (cases "d = 0")
    case True
    with nt "1.prems" show ?thesis by (simp add: cyc_def)
  next
    case False
    with "1.prems" have d: "0 \<le> d - 1" "d - 1 \<le> maxO - (i + 1)" by auto
    have "\<not> testExactOverlap G this (cyc minO maxO ((if t + 1 > maxO then minO else t + 1) + (d - 1)))"
      using "1.IH" [OF i nt rec _ _ _ d] "1.prems" by auto
    moreover have "cyc minO maxO ((if t + 1 > maxO then minO else t + 1) + (d - 1))
                 = cyc minO maxO (t + d)"
      using "1.prems" d by (auto simp: cyc_def)
    ultimately show ?thesis by simp
  qed
qed

lemma autoDetermineExactOverlap_loop_none:
  assumes "autoDetermineExactOverlap_loop G this minO maxO minO t = None"
    and "minO \<le> t" "t \<le> maxO" "minO \<le> k" "k \<le> maxO"
  shows "\<not> testExactOverlap G this k"
proof (cases "t \<le> k")
  case True
  with assms autoDetermineExactOverlap_loop_complete [OF assms(1-3), of "k - t"] show ?thesis by (auto simp: cyc_def)
next
  case False
  with assms autoDetermineExactOverlap_loop_complete [OF assms(1-3), of "k - t + (maxO - minO + 1)"] show ?thesis
    by (auto simp: cyc_def)
qed

lemma autoDetermineExactOverlap_cases:
  fixes G :: "('n, 'e) AssemblyGraph"
  assumes ne: "maxAutoFindEdgeOverlap g \<noteq> minAutoFindEdgeOverlap g - 1"
  shows "\<exists>e'. autoDetermineExactOverlap g rnd G this = Some e' \<and>
           (if minAutoFindEdgeOverlap g \<le> shorterNodeLen G this \<and>
               (\<exists>k. minAutoFindEdgeOverlap g \<le> k \<and>
                    k \<le> min (maxAutoFindEdgeOverlap g) (shorterNodeLen G this) \<and>
                    testExactOverlap G this k)
            then minAutoFindEdgeOverlap g \<le> m_overlap e' \<and>
                 m_overlap e' \<le> min (maxAutoFindEdgeOverlap g) (shorterNodeLen G this) \<and>
                 testExactOverlap G this (m_overlap e')
            else m_overlap e' = 0)"
proof -
  define lo where "lo = minAutoFindEdgeOverlap g"
  define hi where "hi = min (maxAutoFindEdgeOverlap g) (shorterNodeLen G this)"
  define sh where "sh = shorterNodeLen G this"
  define e0 where "e0 = (edgeStore G this)\<lparr>m_overlapType := AUTO_DETERMINED_EXACT_OVERLAP, m_overlap := 0\<rparr>"
  define t where "t = lo + (int rnd smod (hi - lo + 1))"
  show ?thesis
  proof (cases "sh < lo")
    case True
    then have "autoDetermineExactOverlap g rnd G this = Some e0"
      by (simp add: autoDetermineExactOverlap_def Let_def sh_def lo_def shorterNodeLen_def e0_def)
    with True show ?thesis by (simp add: sh_def lo_def e0_def)
  next
    case False
    then have sh: "lo \<le> sh" by simp
    then have minO: "min sh lo = lo" by simp
    have maxO: "min sh (maxAutoFindEdgeOverlap g) = hi" by (simp add: hi_def sh_def min.commute)
    have nz: "hi - lo + 1 \<noteq> 0" using ne sh by (auto simp: hi_def lo_def sh_def min_def)
    have mp: "min (getLength (nodeStore G (m_startingNode e0)))
                  (getLength (nodeStore G (m_endingNode e0))) = sh"
      by (simp add: e0_def sh_def shorterNodeLen_def)
    have unfold: "autoDetermineExactOverlap g rnd G this =
        (case autoDetermineExactOverlap_loop G this lo hi lo t of
           Some k \<Rightarrow> Some (e0\<lparr>m_overlap := k\<rparr>) | None \<Rightarrow> Some e0)"
      unfolding autoDetermineExactOverlap_def Let_def e0_def [symmetric] mp lo_def [symmetric]
        minO maxO t_def
      using False nz by simp
    show ?thesis
    proof (cases "lo \<le> hi")
      case True
      then have pos: "0 < hi - lo + 1" by simp
      have t: "lo \<le> t" "t \<le> hi"
        using smod_int_compares(1,2) [OF _ pos, of "int rnd"] by (simp_all add: t_def)
      show ?thesis
      proof (cases "autoDetermineExactOverlap_loop G this lo hi lo t")
        case None
        from autoDetermineExactOverlap_loop_none [OF None t] have "\<not> (\<exists>k. lo \<le> k \<and> k \<le> hi \<and> testExactOverlap G this k)"
          by blast
        with None unfold show ?thesis
          by (auto simp: lo_def hi_def e0_def)
      next
        case (Some k)
        from autoDetermineExactOverlap_loop_sound [OF Some t] have k: "lo \<le> k" "k \<le> hi" "testExactOverlap G this k" by auto
        then have "\<exists>k. lo \<le> k \<and> k \<le> hi \<and> testExactOverlap G this k" by blast
        with Some unfold k sh show ?thesis
          by (auto simp: lo_def hi_def sh_def)
      qed
    next
      case False
      then have "autoDetermineExactOverlap_loop G this lo hi lo t = None"
        by (subst autoDetermineExactOverlap_loop.simps) simp
      moreover from False have "\<not> (\<exists>k. lo \<le> k \<and> k \<le> hi \<and> testExactOverlap G this k)" by auto
      ultimately show ?thesis using unfold
        by (auto simp: lo_def hi_def e0_def)
    qed
  qed
qed


subsection \<open>The overlap an edge is given\<close>

text \<open>
  Claim C1. Whatever \<open>rand()\<close> returns: if the shorter node is shorter than
  \<open>minAutoFindEdgeOverlap\<close>, or no \<open>k\<close> between \<open>min minAutoFindEdgeOverlap shorterNodeLen\<close>
  and \<open>min maxAutoFindEdgeOverlap shorterNodeLen\<close> passes \<open>testExactOverlap\<close>, the edge's
  overlap is set to 0; otherwise it is set to a \<open>k\<close> of that range that passes
  \<open>testExactOverlap\<close>. The two settings are taken to be such that the function computes
  its starting point, \<open>rand() % (max - min + 1)\<close> with a divisor that is not 0; every pair
  of settings with \<open>minAutoFindEdgeOverlap \<le> maxAutoFindEdgeOverlap\<close> is such. For a
  starting node whose stored length is the size of its sequence and \<open>0 \<le> k \<le>\<close> both
  sizes, \<open>testExactOverlap k\<close> says that the last \<open>k\<close> bases of the starting node are the
  first \<open>k\<close> bases of the ending node.
\<close>

theorem autoDetermineExactOverlap_correct:
  fixes G :: "('n, 'e) AssemblyGraph"
  assumes "maxAutoFindEdgeOverlap g \<noteq> minAutoFindEdgeOverlap g - 1"
  shows "(\<exists>e'. autoDetermineExactOverlap g rnd G this = Some e' \<and>
           m_overlapType e' = AUTO_DETERMINED_EXACT_OVERLAP \<and>
           (if shorterNodeLen G this < minAutoFindEdgeOverlap g \<or>
               \<not> (\<exists>k. min (minAutoFindEdgeOverlap g) (shorterNodeLen G this) \<le> k \<and>
                       k \<le> min (maxAutoFindEdgeOverlap g) (shorterNodeLen G this) \<and>
                       testExactOverlap G this k)
            then m_overlap e' = 0
            else min (minAutoFindEdgeOverlap g) (shorterNodeLen G this) \<le> m_overlap e' \<and>
                 m_overlap e' \<le> min (maxAutoFindEdgeOverlap g) (shorterNodeLen G this) \<and>
                 testExactOverlap G this (m_overlap e'))) \<and>
         (m_length (nodeStore G (m_startingNode (edgeStore G this))) =
            int (length (m_sequence (nodeStore G (m_startingNode (edgeStore G this))))) \<longrightarrow>
          (\<forall>k. 0 \<le> k \<and>
               k \<le> int (length (m_sequence (nodeStore G (m_startingNode (edgeStore G this))))) \<and>
               k \<le> int (length (m_sequence (nodeStore G (m_endingNode (edgeStore G this))))) \<longrightarrow>
               testExactOverlap G this k =
               endMatchesStart (m_sequence (nodeStore G (m_startingNode (edgeStore G this))))
                               (m_sequence (nodeStore G (m_endingNode (edgeStore G this)))) k))"
proof (intro conjI impI allI)
  from autoDetermineExactOverlap_cases [OF assms, of rnd G this]
  obtain e' where e': "autoDetermineExactOverlap g rnd G this = Some e'"
    and rest: "(if minAutoFindEdgeOverlap g \<le> shorterNodeLen G this \<and>
               (\<exists>k. minAutoFindEdgeOverlap g \<le> k \<and>
                    k \<le> min (maxAutoFindEdgeOverlap g) (shorterNodeLen G this) \<and>
                    testExactOverlap G this k)
            then minAutoFindEdgeOverlap g \<le> m_overlap e' \<and>
                 m_overlap e' \<le> min (maxAutoFindEdgeOverlap g) (shorterNodeLen G this) \<and>
                 testExactOverlap G this (m_overlap e')
            else m_overlap e' = 0)"
    by blast
  from e' have ty: "m_overlapType e' = AUTO_DETERMINED_EXACT_OVERLAP"
    by (auto simp: autoDetermineExactOverlap_def Let_def split: if_splits option.splits)
  have "if shorterNodeLen G this < minAutoFindEdgeOverlap g \<or>
               \<not> (\<exists>k. min (minAutoFindEdgeOverlap g) (shorterNodeLen G this) \<le> k \<and>
                       k \<le> min (maxAutoFindEdgeOverlap g) (shorterNodeLen G this) \<and>
                       testExactOverlap G this k)
            then m_overlap e' = 0
            else min (minAutoFindEdgeOverlap g) (shorterNodeLen G this) \<le> m_overlap e' \<and>
                 m_overlap e' \<le> min (maxAutoFindEdgeOverlap g) (shorterNodeLen G this) \<and>
                 testExactOverlap G this (m_overlap e')"
  proof (cases "shorterNodeLen G this < minAutoFindEdgeOverlap g")
    case True
    with rest show ?thesis by simp
  next
    case False
    then have "min (minAutoFindEdgeOverlap g) (shorterNodeLen G this) = minAutoFindEdgeOverlap g"
      by simp
    with rest False show ?thesis by (auto split: if_splits)
  qed
  with e' ty
  show "\<exists>e'. autoDetermineExactOverlap g rnd G this = Some e' \<and>
           m_overlapType e' = AUTO_DETERMINED_EXACT_OVERLAP \<and>
           (if shorterNodeLen G this < minAutoFindEdgeOverlap g \<or>
               \<not> (\<exists>k. min (minAutoFindEdgeOverlap g) (shorterNodeLen G this) \<le> k \<and>
                       k \<le> min (maxAutoFindEdgeOverlap g) (shorterNodeLen G this) \<and>
                       testExactOverlap G this k)
            then m_overlap e' = 0
            else min (minAutoFindEdgeOverlap g) (shorterNodeLen G this) \<le> m_overlap e' \<and>
                 m_overlap e' \<le> min (maxAutoFindEdgeOverlap g) (shorterNodeLen G this) \<and>
                 testExactOverlap G this (m_overlap e'))"
    by blast
next
  fix k
  assume "m_length (nodeStore G (m_startingNode (edgeStore G this))) =
            int (length (m_sequence (nodeStore G (m_startingNode (edgeStore G this)))))"
    and "0 \<le> k \<and>
         k \<le> int (length (m_sequence (nodeStore G (m_startingNode (edgeStore G this))))) \<and>
         k \<le> int (length (m_sequence (nodeStore G (m_endingNode (edgeStore G this)))))"
  then show "testExactOverlap G this k =
             endMatchesStart (m_sequence (nodeStore G (m_startingNode (edgeStore G this))))
                             (m_sequence (nodeStore G (m_endingNode (edgeStore G this)))) k"
    using testExactOverlap_sequences [of G this k] by blast
qed

text \<open>
  Three edges of the example. With the settings 1 and 10 the edge \<open>A \<rightarrow> B\<close> gets the overlap
  3, the only length of the range \<open>[1, 3]\<close> at which the end of \<open>AAACGT\<close> is the start of
  \<open>CGT\<close>. With the settings 5 and 10 the shorter node, of 3 bases, is shorter than the
  minimum and the overlap is 0. With the settings 2 and 2 the edge \<open>B \<rightarrow> C\<close> gets the overlap
  0: the last two bases of \<open>CGT\<close> are not the first two of \<open>TTAA\<close>.
\<close>

theorem autoDetermineExactOverlap_correct_witness:
  "maxAutoFindEdgeOverlap \<lparr>minAutoFindEdgeOverlap = 1, maxAutoFindEdgeOverlap = 10\<rparr>
     \<noteq> minAutoFindEdgeOverlap \<lparr>minAutoFindEdgeOverlap = 1, maxAutoFindEdgeOverlap = 10\<rparr> - 1 \<and>
   \<not> shorterNodeLen cycleGraph EdgeAB < 1 \<and>
   min 1 (shorterNodeLen cycleGraph EdgeAB) \<le> 3 \<and> 3 \<le> min 10 (shorterNodeLen cycleGraph EdgeAB) \<and>
   testExactOverlap cycleGraph EdgeAB 3 \<and>
   map_option m_overlap
     (autoDetermineExactOverlap \<lparr>minAutoFindEdgeOverlap = 1, maxAutoFindEdgeOverlap = 10\<rparr>
        7 cycleGraph EdgeAB) = Some 3 \<and>
   m_length (nodeStore cycleGraph NodeA) = int (length (m_sequence (nodeStore cycleGraph NodeA))) \<and>
   endMatchesStart ''AAACGT'' ''CGT'' 3 \<and>
   shorterNodeLen cycleGraph EdgeAB < 5 \<and>
   map_option m_overlap
     (autoDetermineExactOverlap \<lparr>minAutoFindEdgeOverlap = 5, maxAutoFindEdgeOverlap = 10\<rparr>
        7 cycleGraph EdgeAB) = Some 0 \<and>
   \<not> testExactOverlap cycleGraph EdgeBC 2 \<and>
   map_option m_overlap
     (autoDetermineExactOverlap \<lparr>minAutoFindEdgeOverlap = 2, maxAutoFindEdgeOverlap = 2\<rparr>
        7 cycleGraph EdgeBC) = Some 0"
proof -
  have t: "testExactOverlap cycleGraph EdgeAB 3" by code_simp
  have s: "shorterNodeLen cycleGraph EdgeAB = 3" by code_simp
  have n: "\<not> testExactOverlap cycleGraph EdgeAB 1" "\<not> testExactOverlap cycleGraph EdgeAB 2"
    by code_simp+
  have only: "1 \<le> k \<and> k \<le> 3 \<and> testExactOverlap cycleGraph EdgeAB k \<longleftrightarrow> k = 3" for k
  proof -
    have "1 \<le> k \<and> k \<le> 3 \<longleftrightarrow> k = 1 \<or> k = 2 \<or> k = 3" by auto
    with t n show ?thesis by auto
  qed
  from autoDetermineExactOverlap_correct
         [of "\<lparr>minAutoFindEdgeOverlap = 1, maxAutoFindEdgeOverlap = 10\<rparr>" 7 cycleGraph EdgeAB]
  obtain e1 where
    "autoDetermineExactOverlap \<lparr>minAutoFindEdgeOverlap = 1, maxAutoFindEdgeOverlap = 10\<rparr>
        7 cycleGraph EdgeAB = Some e1" "m_overlap e1 = 3"
    using t by (auto simp: s only split: if_splits)
  then have r1: "map_option m_overlap
     (autoDetermineExactOverlap \<lparr>minAutoFindEdgeOverlap = 1, maxAutoFindEdgeOverlap = 10\<rparr>
        7 cycleGraph EdgeAB) = Some 3" by simp
  from autoDetermineExactOverlap_correct
         [of "\<lparr>minAutoFindEdgeOverlap = 5, maxAutoFindEdgeOverlap = 10\<rparr>" 7 cycleGraph EdgeAB]
  obtain e2 where
    "autoDetermineExactOverlap \<lparr>minAutoFindEdgeOverlap = 5, maxAutoFindEdgeOverlap = 10\<rparr>
        7 cycleGraph EdgeAB = Some e2" "m_overlap e2 = 0"
    by (auto simp: s split: if_splits)
  then have r2: "map_option m_overlap
     (autoDetermineExactOverlap \<lparr>minAutoFindEdgeOverlap = 5, maxAutoFindEdgeOverlap = 10\<rparr>
        7 cycleGraph EdgeAB) = Some 0" by simp
  have s3: "shorterNodeLen cycleGraph EdgeBC = 3" by code_simp
  have n3: "\<not> testExactOverlap cycleGraph EdgeBC 2" by code_simp
  have none: "\<not> (\<exists>k. (2::int) \<le> k \<and> k \<le> 2 \<and> testExactOverlap cycleGraph EdgeBC k)"
  proof
    assume "\<exists>k. (2::int) \<le> k \<and> k \<le> 2 \<and> testExactOverlap cycleGraph EdgeBC k"
    then obtain k where "(2::int) \<le> k" "k \<le> 2" "testExactOverlap cycleGraph EdgeBC k" by blast
    then have "testExactOverlap cycleGraph EdgeBC 2" by (cases "k = 2") auto
    with n3 show False by simp
  qed
  from autoDetermineExactOverlap_correct
         [of "\<lparr>minAutoFindEdgeOverlap = 2, maxAutoFindEdgeOverlap = 2\<rparr>" 7 cycleGraph EdgeBC]
  obtain e3 where
    "autoDetermineExactOverlap \<lparr>minAutoFindEdgeOverlap = 2, maxAutoFindEdgeOverlap = 2\<rparr>
        7 cycleGraph EdgeBC = Some e3" "m_overlap e3 = 0"
    using none by (auto simp: s3 split: if_splits)
  then have r3: "map_option m_overlap
     (autoDetermineExactOverlap \<lparr>minAutoFindEdgeOverlap = 2, maxAutoFindEdgeOverlap = 2\<rparr>
        7 cycleGraph EdgeBC) = Some 0" by simp
  have "endMatchesStart ''AAACGT'' ''CGT'' 3" by (simp add: endMatchesStart_def)
  moreover have "m_length (nodeStore cycleGraph NodeA)
                   = int (length (m_sequence (nodeStore cycleGraph NodeA)))"
    by (simp add: cycleGraph_def)
  ultimately show ?thesis using t s r1 r2 r3 n3 by simp
qed

section \<open>The sequence accessor\<close>

text \<open>
  Claim C10. \<open>getBaseAt\<close> returns for every \<open>int\<close> index: the base at position \<open>i\<close> when
  \<open>0 \<le> i < m_sequence.size()\<close>, and the NUL character for every other index.
\<close>

theorem getBaseAt_total:
  "(0 \<le> i \<and> i < int (length (m_sequence node)) \<longrightarrow> getBaseAt node i = m_sequence node ! nat i) \<and>
   (\<not> (0 \<le> i \<and> i < int (length (m_sequence node))) \<longrightarrow> getBaseAt node i = CHR 0x00)"
  by (simp add: getBaseAt_def)

theorem getBaseAt_total_witness:
  "(0::int) \<le> 4 \<and> 4 < int (length (m_sequence (nodeStore cycleGraph NodeA))) \<and>
   getBaseAt (nodeStore cycleGraph NodeA) 4 = CHR ''G'' \<and>
   \<not> (0 \<le> (6::int) \<and> 6 < int (length (m_sequence (nodeStore cycleGraph NodeA)))) \<and>
   getBaseAt (nodeStore cycleGraph NodeA) 6 = CHR 0x00 \<and>
   \<not> (0 \<le> (- 1::int) \<and> - 1 < int (length (m_sequence (nodeStore cycleGraph NodeA)))) \<and>
   getBaseAt (nodeStore cycleGraph NodeA) (- 1) = CHR 0x00"
  using getBaseAt_total [of 4 "nodeStore cycleGraph NodeA"]
        getBaseAt_total [of 6 "nodeStore cycleGraph NodeA"]
        getBaseAt_total [of "- 1" "nodeStore cycleGraph NodeA"]
  by (simp add: cycleGraph_def)

section \<open>The path tracer\<close>

subsection \<open>No node more than twice in a traced path\<close>

lemma length_eq_sum_times:
  fixes p :: "'n::finite list"
  shows "length p = (\<Sum>n\<in>UNIV. timesNodeInPath n p)"
proof (induction p)
  case Nil
  show ?case by simp
next
  case (Cons x p)
  have "(\<Sum>n\<in>UNIV. timesNodeInPath n (x # p))
        = (\<Sum>n\<in>UNIV. (if x = n then 1 else 0)) + (\<Sum>n\<in>UNIV. timesNodeInPath n p)"
    by (simp add: sum.distrib)
  also have "(\<Sum>n\<in>(UNIV :: 'n set). (if x = n then 1 else 0 :: nat)) = 1"
    by simp
  finally show ?case using Cons by simp
qed

lemma length_le_twice_card:
  fixes p :: "'n::finite list"
  assumes "\<forall>n. timesNodeInPath n p \<le> 2"
  shows "length p \<le> 2 * card (UNIV :: 'n set)"
proof -
  have "(\<Sum>n\<in>(UNIV :: 'n set). timesNodeInPath n p) \<le> (\<Sum>n\<in>(UNIV :: 'n set). 2)"
    using assms by (intro sum_mono) simp
  then show ?thesis by (simp add: length_eq_sum_times)
qed

lemma tracePaths_invariant:
  "\<forall>n. timesNodeInPath n (pathSoFar @ [nodeInDirection G forward this]) \<le> 2 \<Longrightarrow>
   p \<in> set (tracePaths G this forward stepsRemaining startingNode pathSoFar) \<Longrightarrow>
   timesNodeInPath m p \<le> 2"
proof (induction G this forward stepsRemaining startingNode pathSoFar
        rule: tracePaths.induct)
  case (1 G this forward stepsRemaining startingNode pathSoFar)
  define nextNode where "nextNode = nodeInDirection G forward this"
  define path' where "path' = pathSoFar @ [nextNode]"
  define nextEdges where "nextEdges = findNextEdgesInPath G nextNode forward"
  from "1.prems"(1) have ok: "\<forall>n. timesNodeInPath n path' \<le> 2"
    by (simp add: path'_def nextNode_def)
  have eq: "tracePaths G this forward stepsRemaining startingNode pathSoFar =
      (if stepsRemaining - 1 = 0 then [path']
       else if nextEdges = [] then [path']
       else concat (map (\<lambda>nextEdge.
              if nodeInDirection G forward nextEdge = startingNode then [path']
              else if timesNodeInPath (nodeInDirection G forward nextEdge) path' < 2
              then tracePaths G nextEdge forward (stepsRemaining - 1) startingNode path'
              else []) nextEdges))"
    unfolding path'_def nextNode_def nextEdges_def
    by (subst tracePaths.simps) (simp add: Let_def)
  show ?case
  proof (cases "stepsRemaining - 1 = 0 \<or> nextEdges = []")
    case True
    with "1.prems"(2) have "p = path'"
      unfolding eq by (auto split: if_splits)
    with ok show ?thesis by simp
  next
    case False
    with "1.prems"(2) have "p \<in> set (concat (map (\<lambda>nextEdge.
              if nodeInDirection G forward nextEdge = startingNode then [path']
              else if timesNodeInPath (nodeInDirection G forward nextEdge) path' < 2
              then tracePaths G nextEdge forward (stepsRemaining - 1) startingNode path'
              else []) nextEdges))"
      unfolding eq by simp
    then obtain nextEdge where ne: "nextEdge \<in> set nextEdges"
      and p: "p \<in> set (if nodeInDirection G forward nextEdge = startingNode then [path']
                else if timesNodeInPath (nodeInDirection G forward nextEdge) path' < 2
                then tracePaths G nextEdge forward (stepsRemaining - 1) startingNode path'
                else [])"
      unfolding set_concat set_map by blast
    show ?thesis
    proof (cases "nodeInDirection G forward nextEdge = startingNode")
      case True
      with p ok show ?thesis by simp
    next
      case ns: False
      show ?thesis
      proof (cases "timesNodeInPath (nodeInDirection G forward nextEdge) path' < 2")
        case True
        with p ns have p': "p \<in> set (tracePaths G nextEdge forward (stepsRemaining - 1) startingNode path')"
          by simp
        have ok': "\<forall>n. timesNodeInPath n (path' @ [nodeInDirection G forward nextEdge]) \<le> 2"
          using ok True by (auto simp: timesNodeInPath_append)
        from False have a: "stepsRemaining - 1 \<noteq> 0" "findNextEdgesInPath G nextNode forward \<noteq> []"
          by (auto simp: nextEdges_def)
        show ?thesis
          using "1.IH" [OF nextNode_def path'_def refl a(1) refl, unfolded nextEdges_def [symmetric],
                        OF a(2) [unfolded nextEdges_def [symmetric]] ne ns True ok' p'] .
      next
        case False
        with p ns show ?thesis by simp
      qed
    qed
  qed
qed

lemma card_exNode: "card (UNIV :: exNode set) = 3"
proof -
  have u: "(UNIV :: exNode set) = {NodeA, NodeB, NodeC}"
    by (auto intro: exNode.exhaust)
  show ?thesis by (subst u) simp
qed

text \<open>
  Claim C3. \<open>tracePaths\<close> is a total function: its recursion ends for every graph, edge,
  direction and \<open>maxSteps\<close> (also for \<open>maxSteps \<le> 0\<close>, where the step counter never reaches
  0), because a call is made only for an edge that leads to a node which is in the path fewer
  than two times. In every path it emits, called with the empty path as the program calls
  it, each node occurs at most twice, so a path is at most twice as long as the graph has
  nodes. On the cycle \<open>A \<rightarrow> B \<rightarrow> C \<rightarrow> A\<close> with \<open>maxSteps = 10\<close> every emitted path has at most 6
  nodes, from whatever edge, in whatever direction and with whatever starting node the
  trace is made.
\<close>

theorem tracePaths_each_node_at_most_twice:
  fixes G :: "('n::finite, 'e) AssemblyGraph"
  shows "(\<forall>p \<in> set (tracePaths G this forward maxSteps startingNode []).
            (\<forall>n. timesNodeInPath n p \<le> 2) \<and> length p \<le> 2 * card (UNIV :: 'n set)) \<and>
         (\<forall>e fwd start. \<forall>p \<in> set (tracePaths cycleGraph e fwd 10 start []). length p \<le> 6)"
proof (intro conjI ballI allI)
  fix p n
  assume "p \<in> set (tracePaths G this forward maxSteps startingNode [])"
  then show "timesNodeInPath n p \<le> 2"
    by (rule tracePaths_invariant [rotated]) simp
next
  fix p
  assume p: "p \<in> set (tracePaths G this forward maxSteps startingNode [])"
  have "\<forall>n. timesNodeInPath n p \<le> 2"
    using p by (auto intro: tracePaths_invariant [rotated])
  then show "length p \<le> 2 * card (UNIV :: 'n set)"
    by (rule length_le_twice_card)
next
  fix e fwd start p
  assume p: "p \<in> set (tracePaths cycleGraph e fwd 10 start [])"
  have "\<forall>n. timesNodeInPath n p \<le> 2"
    using p by (auto intro: tracePaths_invariant [rotated])
  from length_le_twice_card [OF this] show "length p \<le> 6"
    by (simp add: card_exNode)
qed

theorem tracePaths_each_node_at_most_twice_witness:
  "[NodeB, NodeC] \<in> set (tracePaths cycleGraph EdgeAB True 10 NodeA []) \<and>
   timesNodeInPath NodeB [NodeB, NodeC] \<le> 2 \<and>
   length [NodeB, NodeC] \<le> 2 * card (UNIV :: exNode set) \<and>
   length [NodeB, NodeC] \<le> (6::nat)"
proof -
  have m: "[NodeB, NodeC] \<in> set (tracePaths cycleGraph EdgeAB True 10 NodeA [])"
    by code_simp
  from tracePaths_each_node_at_most_twice [of cycleGraph EdgeAB True 10 NodeA] m
  show ?thesis by auto
qed

subsection \<open>A path back to the origin makes \<open>leadsOnlyToNode\<close> false\<close>

lemma returnsToOrigin_head:
  "returnsToOrigin G forward target rc origin (x # post) \<Longrightarrow>
   nodeInDirection G forward e = nodeInDirection G forward x \<Longrightarrow>
   returnsToOrigin G forward target rc origin (e # post)"
  by (cases post) auto

lemma returnsToOrigin_suffix:
  "returnsToOrigin G forward target rc origin (pre @ x # post) \<Longrightarrow>
   returnsToOrigin G forward target rc origin (x # post)"
proof (induction pre)
  case Nil
  then show ?case by simp
next
  case (Cons a pre)
  then show ?case by (cases pre) auto
qed

lemma returnsToOrigin_simple:
  "returnsToOrigin G forward target rc origin (e # es) \<Longrightarrow>
   \<exists>es'. returnsToOrigin G forward target rc origin (e # es') \<and>
         distinct (map (nodeInDirection G forward) (e # es'))"
proof (induction es arbitrary: e)
  case Nil
  then show ?case by (intro exI [of _ "[]"]) simp
next
  case (Cons e' es)
  let ?nx = "nodeInDirection G forward"
  from Cons.prems have r: "returnsToOrigin G forward target rc origin (e' # es)" by simp
  from Cons.IH [OF r] obtain r' where
    r': "returnsToOrigin G forward target rc origin (e' # r')" and
    d: "distinct (map ?nx (e' # r'))" by blast
  show ?case
  proof (cases "?nx e \<in> set (map ?nx (e' # r'))")
    case False
    from Cons.prems r' have "returnsToOrigin G forward target rc origin (e # e' # r')" by simp
    with False d show ?thesis by (intro exI [of _ "e' # r'"]) simp
  next
    case True
    then have "?nx e \<in> ?nx ` set (e' # r')" by (simp only: set_map)
    then obtain x where x: "x \<in> set (e' # r')" "?nx x = ?nx e"
      by (metis imageE)
    then obtain pre post where sp: "e' # r' = pre @ x # post"
      by (meson split_list)
    from r' [unfolded sp] have "returnsToOrigin G forward target rc origin (x # post)"
      by (rule returnsToOrigin_suffix)
    then have a: "returnsToOrigin G forward target rc origin (e # post)"
      using x(2) by (rule returnsToOrigin_head [OF _ sym])
    from d [unfolded sp] have "distinct (map ?nx (x # post))" by simp
    with x(2) have "distinct (map ?nx (e # post))" by simp
    with a show ?thesis by blast
  qed
qed

lemma leadsOnlyToNode_simple_route:
  fixes G :: "('n::finite, 'e) AssemblyGraph"
  shows "returnsToOrigin G forward target rc origin (e # es) \<Longrightarrow>
   distinct (map (nodeInDirection G forward) (e # es)) \<Longrightarrow>
   pathSoFar \<noteq> [] \<Longrightarrow> hd pathSoFar = origin \<Longrightarrow>
   \<forall>n \<in> set (map (nodeInDirection G forward) es).
      timesNodeInPath n (pathSoFar @ [nodeInDirection G forward e]) < 2 \<Longrightarrow>
   \<not> leadsOnlyToNode G e forward stepsRemaining target pathSoFar rc"
proof (induction es arbitrary: e pathSoFar stepsRemaining)
  case Nil
  then have "nodeInDirection G forward e = (pathSoFar @ [nodeInDirection G forward e]) ! 0"
    by (cases pathSoFar) auto
  then show ?case
    by (subst leadsOnlyToNode.simps) (simp add: Let_def)
next
  case (Cons e' es)
  let ?nx = "nodeInDirection G forward"
  define path' where "path' = pathSoFar @ [?nx e]"
  from Cons.prems(1) have nt: "?nx e \<noteq> target"
    "\<not> (rc \<and> getReverseComplement (nodeStore G (?nx e)) = target)"
    and e': "e' \<in> set (findNextEdgesInPath G (?nx e) forward)"
    and r: "returnsToOrigin G forward target rc origin (e' # es)"
    by auto
  from Cons.prems(5) have c: "timesNodeInPath (?nx e') path' < 2"
    by (simp add: path'_def)
  have rec: "\<not> leadsOnlyToNode G e' forward (stepsRemaining - 1) target path' rc"
  proof (rule Cons.IH [OF r])
    show "distinct (map ?nx (e' # es))" using Cons.prems(2) by simp
    show "path' \<noteq> []" by (simp add: path'_def)
    show "hd path' = origin" using Cons.prems(3,4) by (simp add: path'_def)
    show "\<forall>n\<in>set (map ?nx es). timesNodeInPath n (path' @ [?nx e']) < 2"
    proof
      fix n assume n: "n \<in> set (map ?nx es)"
      from Cons.prems(2) have "?nx e' \<notin> set (map ?nx es)" by simp
      with n have "n \<noteq> ?nx e'" by blast
      moreover from n Cons.prems(5) have "timesNodeInPath n path' < 2"
        unfolding path'_def by auto
      ultimately show "timesNodeInPath n (path' @ [?nx e']) < 2"
        by (simp add: timesNodeInPath_append)
    qed
  qed
  have "\<not> list_all (\<lambda>nextEdge.
            if timesNodeInPath (?nx nextEdge) path' < 2
            then leadsOnlyToNode G nextEdge forward (stepsRemaining - 1) target path' rc
            else True) (findNextEdgesInPath G (?nx e) forward)"
    using e' c rec by (auto simp: list_all_iff)
  with nt show ?case
    unfolding path'_def
    by (subst leadsOnlyToNode.simps) (auto simp: Let_def)
qed

lemma leadsOnlyToNode_returns_false:
  fixes G :: "('n::finite, 'e) AssemblyGraph"
  assumes "returnsToOrigin G forward target rc origin (this # es)"
  shows "\<not> leadsOnlyToNode G this forward maxSteps target [origin] rc"
proof -
  let ?nx = "nodeInDirection G forward"
  from returnsToOrigin_simple [OF assms] obtain es' where
    r: "returnsToOrigin G forward target rc origin (this # es')" and
    d: "distinct (map ?nx (this # es'))" by blast
  have "\<forall>n \<in> set (map ?nx es'). timesNodeInPath n ([origin] @ [?nx this]) < 2"
  proof
    fix n assume "n \<in> set (map ?nx es')"
    moreover from d have "?nx this \<notin> set (map ?nx es')" by simp
    ultimately have "n \<noteq> ?nx this" by blast
    then show "timesNodeInPath n ([origin] @ [?nx this]) < 2" by simp
  qed
  from leadsOnlyToNode_simple_route [OF r d _ _ this] show ?thesis by simp
qed

text \<open>
  Claim C2, as the code has it. The traversal is started as the program starts it, with the
  origin as the only node of \<open>pathSoFar\<close>. Whenever some directed path from the start edge
  returns to the origin before it reaches the target or (when \<open>includeReverseComplement\<close> is
  set) a node whose reverse complement is the target, \<open>leadsOnlyToNode\<close> returns false,
  whatever \<open>maxSteps\<close> is and however many hops the path has; so in particular for a path of
  at most \<open>maxSteps\<close> hops. So \<open>leadsOnlyToNode\<close> returns false whenever the start edge lies
  on a cycle through the origin that passes neither through the target nor (when
  \<open>includeReverseComplement\<close> is set) through a node whose reverse complement is the target:
  the part of the cycle from the start edge to the origin is such a path.
\<close>

theorem leadsOnlyToNode_false_when_path_returns:
  fixes G :: "('n::finite, 'e) AssemblyGraph"
  assumes "returnsToOrigin G forward target includeReverseComplement origin (this # es)"
  shows "leadsOnlyToNode G this forward maxSteps target [origin] includeReverseComplement = False"
  using leadsOnlyToNode_returns_false [OF assms] by simp

theorem leadsOnlyToNode_false_when_path_returns_witness:
  "returnsToOrigin cycleGraph True NodeB True NodeA (EdgeAB # [EdgeBC, EdgeCA]) = False \<and>
   returnsToOrigin forkGraph True NodeB True NodeA (ForkAC # [ForkCA]) \<and>
   leadsOnlyToNode forkGraph ForkAC True 10 NodeB [NodeA] True = False"
proof -
  have h: "returnsToOrigin forkGraph True NodeB True NodeA (ForkAC # [ForkCA])"
    by (simp add: forkGraph_def nodeInDirection_def findNextEdgesInPath_def edges_def
          getReverseComplement_def)
  have "returnsToOrigin cycleGraph True NodeB True NodeA (EdgeAB # [EdgeBC, EdgeCA]) = False"
    by (simp add: cycleGraph_def nodeInDirection_def)
  with h leadsOnlyToNode_false_when_path_returns [OF h, of 10] show ?thesis by simp
qed

text \<open>
  Claim C2 as it is written also says that \<open>leadsOnlyToNode\<close> returns false for any graph
  that contains a cycle through the origin that does not pass through the target. In the
  fork graph the cycle \<open>A \<rightarrow> C \<rightarrow> A\<close> goes through the origin \<open>A\<close> and not through the target
  \<open>B\<close>, and the traversal from the edge \<open>A \<rightarrow> B\<close> returns true at its first hop: the start
  edge does not lie on the cycle.
\<close>

theorem leadsOnlyToNode_cycle_elsewhere_counterexample:
  "m_startingNode (edgeStore forkGraph ForkAB) = NodeA \<and>
   ForkAC \<in> set (findNextEdgesInPath forkGraph NodeA True) \<and>
   returnsToOrigin forkGraph True NodeB False NodeA [ForkAC, ForkCA] \<and>
   leadsOnlyToNode forkGraph ForkAB True 10 NodeB [NodeA] False = True"
  by (simp add: forkGraph_def nodeInDirection_def findNextEdgesInPath_def edges_def
        leadsOnlyToNode.simps)

text \<open>
  Nor is a cycle that the start edge lies on enough when \<open>includeReverseComplement\<close> is
  set: where \<open>C\<close> is the reverse complement of the target \<open>B\<close>, the traversal from the edge
  \<open>A \<rightarrow> C\<close> returns true at \<open>C\<close>, although the cycle \<open>A \<rightarrow> C \<rightarrow> A\<close> does not pass through \<open>B\<close>.
\<close>

lemma leadsOnlyToNode_cycle_through_reverse_complement:
  "returnsToOrigin pairedForkGraph True NodeB False NodeA [ForkAC, ForkCA] \<and>
   \<not> returnsToOrigin pairedForkGraph True NodeB True NodeA [ForkAC, ForkCA] \<and>
   getReverseComplement (nodeStore pairedForkGraph NodeC) = NodeB \<and>
   leadsOnlyToNode pairedForkGraph ForkAC True 10 NodeB [NodeA] True = True"
  by (simp add: pairedForkGraph_def forkGraph_def nodeInDirection_def findNextEdgesInPath_def
        edges_def getReverseComplement_def leadsOnlyToNode.simps)

section \<open>The query-path scorer\<close>

subsection \<open>The hit chain of a constructed query path\<close>

lemma le_last_strictly_sorted:
  fixes xs :: "int list"
  shows "sorted_wrt (<) xs \<Longrightarrow> x \<in> set xs \<Longrightarrow> x \<le> last xs"
proof (induction xs)
  case Nil
  then show ?case by simp
next
  case (Cons a xs)
  show ?case
  proof (cases "xs = []")
    case True
    with Cons.prems show ?thesis by simp
  next
    case False
    then have l: "last xs \<in> set xs" by simp
    show ?thesis
    proof (cases "x = a")
      case True
      from Cons.prems(1) have "\<forall>y\<in>set xs. a < y" by simp
      with l have "a < last xs" by blast
      with True False show ?thesis by simp
    next
      case ne: False
      with Cons False show ?thesis by simp
    qed
  qed
qed

lemma sorted_wrt_less_snoc:
  fixes xs :: "int list"
  assumes "sorted_wrt (<) xs" "xs \<noteq> [] \<longrightarrow> last xs < y"
  shows "sorted_wrt (<) (xs @ [y])"
proof -
  have "\<forall>x\<in>set xs. x < y"
  proof
    fix x assume x: "x \<in> set xs"
    then have ne: "xs \<noteq> []" by auto
    from le_last_strictly_sorted [OF assms(1) x] have "x \<le> last xs" .
    with assms(2) ne show "x < y" by simp
  qed
  with assms(1) show ?thesis by (simp add: sorted_wrt_append)
qed

lemma hitLoop_chainInvariant:
  "chainInvariant st \<Longrightarrow> chainInvariant (QueryPath_hitLoop path i hs st)"
proof (induction hs arbitrary: st)
  case Nil
  then show ?case by simp
next
  case (Cons hit hs)
  obtain hits previousHit where st: "st = (hits, previousHit)" by (cases st)
  from Cons.prems st have inv: "sorted_wrt (<) (map m_queryStart hits)"
    "previousHit = (if hits = [] then None else Some (last hits))"
    by (simp_all add: chainInvariant_def)
  have ext: "chainInvariant (hits @ [hit], Some hit)"
    if "case previousHit of None \<Rightarrow> True | Some prev \<Rightarrow> m_queryStart hit > m_queryStart prev"
  proof -
    have "map m_queryStart hits \<noteq> [] \<longrightarrow> last (map m_queryStart hits) < m_queryStart hit"
      using that inv(2) by (auto simp: last_map)
    from sorted_wrt_less_snoc [OF inv(1) this] show ?thesis
      by (simp add: chainInvariant_def)
  qed
  show ?case
    unfolding st using Cons.IH [OF ext] Cons.IH [OF Cons.prems [unfolded st]]
    by simp
qed

lemma nodeLoop_chainInvariant:
  "chainInvariant st \<Longrightarrow>
   chainInvariant (fold (QueryPath_nodeStep std_sort path query) is st)"
  by (induction "is" arbitrary: st)
     (simp_all add: QueryPath_nodeStep_def Let_def hitLoop_chainInvariant)

lemma hitLoop_admitted:
  assumes "\<forall>h\<in>set (fst st). \<exists>j. admittedAt path query h j"
    and "\<forall>h\<in>set hs. h \<in> set (q_hits query) \<and> m_node h = m_nodes path ! i"
    and "i < length (m_nodes path)"
  shows "\<forall>h\<in>set (fst (QueryPath_hitLoop path i hs st)). \<exists>j. admittedAt path query h j"
  using assms
proof (induction hs arbitrary: st)
  case Nil
  then show ?case by simp
next
  case (Cons hit hs)
  obtain hits previousHit where st: "st = (hits, previousHit)" by (cases st)
  have ext: "\<forall>h\<in>set (fst (hits @ [hit], Some hit)). \<exists>j. admittedAt path query h j"
    if "(i \<noteq> 0 \<or> m_nodeStart hit \<ge> m_startPosition path) \<and>
        (int i \<noteq> int (length (m_nodes path)) - 1 \<or> m_nodeEnd hit \<le> m_endPosition path)"
  proof -
    from that Cons.prems(2,3) have "admittedAt path query hit i"
      by (auto simp: admittedAt_def)
    with Cons.prems(1) show ?thesis by (auto simp: st)
  qed
  from Cons.prems(2) have rest: "\<forall>h\<in>set hs. h \<in> set (q_hits query) \<and> m_node h = m_nodes path ! i"
    by simp
  show ?case
    unfolding st
    using Cons.IH [OF ext rest Cons.prems(3)]
          Cons.IH [OF Cons.prems(1) [unfolded st] rest Cons.prems(3)]
    by simp
qed

lemma nodeLoop_admitted:
  assumes "\<forall>hs. set (std_sort hs) = set hs"
    and "\<forall>h\<in>set (fst st). \<exists>j. admittedAt path query h j"
    and "\<forall>i\<in>set is. i < length (m_nodes path)"
  shows "\<forall>h\<in>set (fst (fold (QueryPath_nodeStep std_sort path query) is st)).
           \<exists>j. admittedAt path query h j"
  using assms(2,3)
proof (induction "is" arbitrary: st)
  case Nil
  then show ?case by simp
next
  case (Cons i "is")
  have "\<forall>h\<in>set (fst (QueryPath_nodeStep std_sort path query i st)). \<exists>j. admittedAt path query h j"
    unfolding QueryPath_nodeStep_def Let_def
    using Cons.prems by (intro hitLoop_admitted) (auto simp: assms(1))
  from Cons.IH [OF this] Cons.prems(2) show ?case by simp
qed

lemma sort_single:
  assumes "sortsByQueryStart std_sort"
  shows "std_sort [h] = [h]" "std_sort [] = []"
proof -
  from assms have l: "length (std_sort [h]) = 1" and s: "set (std_sort [h]) = {h}"
    by (simp_all add: sortsByQueryStart_def)
  from l obtain x where x: "std_sort [h] = [x]"
    by (cases "std_sort [h]") auto
  with s show "std_sort [h] = [h]" by simp
  from assms have "length (std_sort []) = 0" by (simp add: sortsByQueryStart_def)
  then show "std_sort [] = []" by simp
qed

lemma sortsByQueryStart_stable: "sortsByQueryStart sortByQueryStart"
  by (simp add: sortsByQueryStart_def sortByQueryStart_def)

lemma two_node_instance:
  assumes s: "sortsByQueryStart std_sort"
    and n: "m_nodes path = [a, b]" "a \<noteq> b"
    and q: "q_hits query = [h1, h2] \<or> q_hits query = [h2, h1]"
    and h: "m_node h1 = a" "m_node h2 = b"
    and c: "m_startPosition path \<le> m_nodeStart h1"
    and o: "m_queryStart h2 \<le> m_queryStart h1"
  shows "m_hits (QueryPath_ctor std_sort path query) = [h1]"
proof -
  have f0: "filter (\<lambda>queryHit. m_node queryHit = a) (q_hits query) = [h1]"
    using q n h by auto
  have f1: "filter (\<lambda>queryHit. m_node queryHit = b) (q_hits query) = [h2]"
    using q n h by auto
  have u: "[0 ..< length (m_nodes path)] = [0, 1]"
    by (simp add: n upt_rec)
  show ?thesis
    unfolding QueryPath_ctor_def u
    using c o
    by (simp add: QueryPath_nodeStep_def Let_def n f0 f1 sort_single [OF s])
qed

text \<open>
  Claim C4, as the code has it. For every path and query, whatever order the sort gives to
  hits of equal query start: the hit chain of the constructed query path is strictly
  increasing in \<open>queryStart\<close> (a hit is appended only if its query start exceeds that of the
  hit appended last); every hit of the chain passed the test at some index of the path,
  where at the first index it must start at or after the path's start position and at the
  last index it must end at or before the path's end position; and in a path of two
  different nodes with one hit on each, where the hit on the first node lies within the
  start bound and the hit on the second node has a query start less than or equal to the
  first's, the chain is the first hit alone.
\<close>

theorem QueryPath_ctor_chain:
  assumes "sortsByQueryStart std_sort"
  shows "sorted_wrt (<) (map m_queryStart (m_hits (QueryPath_ctor std_sort path query))) \<and>
         (\<forall>hit \<in> set (m_hits (QueryPath_ctor std_sort path query)).
            \<exists>i. admittedAt path query hit i) \<and>
         (\<forall>a b h1 h2.
            m_nodes path = [a, b] \<and> a \<noteq> b \<and>
            (q_hits query = [h1, h2] \<or> q_hits query = [h2, h1]) \<and>
            m_node h1 = a \<and> m_node h2 = b \<and>
            m_startPosition path \<le> m_nodeStart h1 \<and>
            m_queryStart h2 \<le> m_queryStart h1 \<longrightarrow>
            m_hits (QueryPath_ctor std_sort path query) = [h1])"
proof (intro conjI)
  have "chainInvariant (fold (QueryPath_nodeStep std_sort path query)
          [0 ..< length (m_nodes path)] ([], None))"
    by (rule nodeLoop_chainInvariant) (simp add: chainInvariant_def)
  then show "sorted_wrt (<) (map m_queryStart (m_hits (QueryPath_ctor std_sort path query)))"
    by (simp add: chainInvariant_def QueryPath_ctor_def split: prod.splits)
next
  from assms have "\<forall>hs. set (std_sort hs) = set hs" by (simp add: sortsByQueryStart_def)
  from nodeLoop_admitted [OF this, of "([], None)" path query "[0 ..< length (m_nodes path)]"]
  show "\<forall>hit \<in> set (m_hits (QueryPath_ctor std_sort path query)). \<exists>i. admittedAt path query hit i"
    by (simp add: QueryPath_ctor_def)
next
  show "\<forall>a b h1 h2.
            m_nodes path = [a, b] \<and> a \<noteq> b \<and>
            (q_hits query = [h1, h2] \<or> q_hits query = [h2, h1]) \<and>
            m_node h1 = a \<and> m_node h2 = b \<and>
            m_startPosition path \<le> m_nodeStart h1 \<and>
            m_queryStart h2 \<le> m_queryStart h1 \<longrightarrow>
            m_hits (QueryPath_ctor std_sort path query) = [h1]"
    using two_node_instance [OF assms] by blast
qed

theorem QueryPath_ctor_chain_witness:
  "sortsByQueryStart (sortByQueryStart :: strandNode Hit list \<Rightarrow> strandNode Hit list) \<and>
   m_nodes path12 = [N1p, N2p] \<and> N1p \<noteq> N2p \<and>
   q_hits queryBackwards = [lateHitOn1, earlyHitOn2] \<and>
   m_node lateHitOn1 = N1p \<and> m_node earlyHitOn2 = N2p \<and>
   m_startPosition path12 \<le> m_nodeStart lateHitOn1 \<and>
   m_queryStart earlyHitOn2 \<le> m_queryStart lateHitOn1 \<and>
   m_hits (QueryPath_ctor sortByQueryStart path12 queryBackwards) = [lateHitOn1] \<and>
   admittedAt path12 queryBackwards lateHitOn1 0 \<and>
   m_hits (QueryPath_ctor sortByQueryStart path12 query12) = [hitOn1, hitOn2] \<and>
   sorted_wrt (<) (map m_queryStart [hitOn1, hitOn2])"
proof -
  have h: "m_nodes path12 = [N1p, N2p] \<and> N1p \<noteq> N2p \<and>
     (q_hits queryBackwards = [lateHitOn1, earlyHitOn2] \<or>
      q_hits queryBackwards = [earlyHitOn2, lateHitOn1]) \<and>
     m_node lateHitOn1 = N1p \<and> m_node earlyHitOn2 = N2p \<and>
     m_startPosition path12 \<le> m_nodeStart lateHitOn1 \<and>
     m_queryStart earlyHitOn2 \<le> m_queryStart lateHitOn1"
    by (simp add: example_defs)
  have s: "sortsByQueryStart (sortByQueryStart :: strandNode Hit list \<Rightarrow> strandNode Hit list)"
    by (rule sortsByQueryStart_stable)
  have q: "q_hits queryBackwards = [lateHitOn1, earlyHitOn2]"
    by (simp add: queryBackwards_def)
  have a: "admittedAt path12 queryBackwards lateHitOn1 0"
    by (simp add: admittedAt_def example_defs)
  have e: "m_hits (QueryPath_ctor sortByQueryStart path12 query12) = [hitOn1, hitOn2]"
    by (simp add: QueryPath_ctor_def QueryPath_nodeStep_def sortByQueryStart_def example_defs upt_rec)
  from QueryPath_ctor_chain [OF s, of path12 queryBackwards] h
  have "m_hits (QueryPath_ctor sortByQueryStart path12 queryBackwards) = [lateHitOn1]"
    by blast
  moreover from QueryPath_ctor_chain [OF s, of path12 query12] e
  have "sorted_wrt (<) (map m_queryStart [hitOn1, hitOn2])" by simp
  ultimately show ?thesis
    using h a e s q by simp
qed

text \<open>
  Claim C4 as it is written says that in every two-node path with one hit per node the
  second hit is excluded when its query start is not greater than the first's. When the
  path is clipped so that the hit on the first node lies before the start position, that
  hit is not admitted, no hit precedes the second one, and the second hit is admitted.
\<close>

theorem QueryPath_ctor_clipped_counterexample:
  "m_nodes clippedPath12 = [N1p, N2p] \<and>
   q_hits queryBackwards = [lateHitOn1, earlyHitOn2] \<and>
   m_node lateHitOn1 = N1p \<and> m_node earlyHitOn2 = N2p \<and>
   m_queryStart earlyHitOn2 \<le> m_queryStart lateHitOn1 \<and>
   m_hits (QueryPath_ctor sortByQueryStart clippedPath12 queryBackwards) = [earlyHitOn2]"
  by (simp add: QueryPath_ctor_def QueryPath_nodeStep_def sortByQueryStart_def example_defs upt_rec)

subsection \<open>The overlap of two hits\<close>

lemma inter_atLeastAtMost_card:
  fixes s1 e1 s2 e2 :: int
  shows "int (card ({s1..e1} \<inter> {s2..e2})) = max 0 (min e1 e2 - max (s1 - 1) (s2 - 1))"
proof -
  have "{s1..e1} \<inter> {s2..e2} = {max s1 s2 .. min e1 e2}" by auto
  then show ?thesis by auto
qed

lemma getHitOverlap_same_node_shared_bases:
  assumes "m_node hit1 = m_node hit2"
  shows "getHitOverlap G hit1 hit2 =
         int (card ({m_nodeStart hit1 .. m_nodeEnd hit1} \<inter> {m_nodeStart hit2 .. m_nodeEnd hit2}))"
  unfolding inter_atLeastAtMost_card using assms
  by (auto simp: getHitOverlap_def Let_def)

text \<open>
  Claim C6. \<open>getHitOverlap\<close> on two hits of the same node compares their node spans: the
  result is the number of node positions that both hits cover (the spans are taken half
  open, starting one before the 1-based start). On hits of two nodes joined by an edge of
  the graph's edge map it adds the first hit's node length minus the edge's overlap to the
  second hit's span and takes the smaller end minus the larger start. On hits of two
  different nodes without such an edge it returns 0. In every case the result is not
  negative, a negative difference being replaced by 0.
\<close>

theorem getHitOverlap_cases:
  "(m_node hit1 = m_node hit2 \<longrightarrow>
      getHitOverlap G hit1 hit2 =
        max 0 (min (m_nodeEnd hit1) (m_nodeEnd hit2)
               - max (m_nodeStart hit1 - 1) (m_nodeStart hit2 - 1)) \<and>
      getHitOverlap G hit1 hit2 =
        int (card ({m_nodeStart hit1 .. m_nodeEnd hit1} \<inter>
                   {m_nodeStart hit2 .. m_nodeEnd hit2}))) \<and>
   (m_node hit1 \<noteq> m_node hit2 \<longrightarrow>
      (\<forall>edge. m_deBruijnGraphEdges G (m_node hit1, m_node hit2) = Some edge \<longrightarrow>
         getHitOverlap G hit1 hit2 =
           max 0 (min (m_nodeEnd hit1)
                      (m_nodeEnd hit2 + (getLength (nodeStore G (m_node hit1))
                                         - getOverlap (edgeStore G edge)))
                  - max (m_nodeStart hit1)
                        (m_nodeStart hit2 + (getLength (nodeStore G (m_node hit1))
                                             - getOverlap (edgeStore G edge)))))) \<and>
   (m_node hit1 \<noteq> m_node hit2 \<and> m_deBruijnGraphEdges G (m_node hit1, m_node hit2) = None \<longrightarrow>
      getHitOverlap G hit1 hit2 = 0) \<and>
   0 \<le> getHitOverlap G hit1 hit2"
proof (intro conjI impI allI)
  assume "m_node hit1 = m_node hit2"
  then show "getHitOverlap G hit1 hit2 =
        max 0 (min (m_nodeEnd hit1) (m_nodeEnd hit2)
               - max (m_nodeStart hit1 - 1) (m_nodeStart hit2 - 1))"
    by (auto simp: getHitOverlap_def Let_def)
next
  assume "m_node hit1 = m_node hit2"
  then show "getHitOverlap G hit1 hit2 =
        int (card ({m_nodeStart hit1 .. m_nodeEnd hit1} \<inter>
                   {m_nodeStart hit2 .. m_nodeEnd hit2}))"
    by (rule getHitOverlap_same_node_shared_bases)
next
  fix edge
  assume "m_node hit1 \<noteq> m_node hit2"
    and "m_deBruijnGraphEdges G (m_node hit1, m_node hit2) = Some edge"
  then show "getHitOverlap G hit1 hit2 =
           max 0 (min (m_nodeEnd hit1)
                      (m_nodeEnd hit2 + (getLength (nodeStore G (m_node hit1))
                                         - getOverlap (edgeStore G edge)))
                  - max (m_nodeStart hit1)
                        (m_nodeStart hit2 + (getLength (nodeStore G (m_node hit1))
                                             - getOverlap (edgeStore G edge))))"
    by (auto simp: getHitOverlap_def Let_def)
next
  assume "m_node hit1 \<noteq> m_node hit2 \<and> m_deBruijnGraphEdges G (m_node hit1, m_node hit2) = None"
  then show "getHitOverlap G hit1 hit2 = 0"
    by (simp add: getHitOverlap_def)
next
  show "0 \<le> getHitOverlap G hit1 hit2"
    by (auto simp: getHitOverlap_def Let_def split: option.splits)
qed

theorem getHitOverlap_cases_witness:
  "m_node hitOn1 \<noteq> m_node hitOn2 \<and>
   m_deBruijnGraphEdges strandGraph (m_node hitOn1, m_node hitOn2) = Some E_1p_2p \<and>
   getLength (nodeStore strandGraph (m_node hitOn1)) - getOverlap (edgeStore strandGraph E_1p_2p)
     = 90 \<and>
   getHitOverlap strandGraph hitOn1 hitOn2 = 9 \<and>
   m_node hitOn1 = m_node (hitOn1\<lparr>m_nodeStart := 91, m_nodeEnd := 120\<rparr>) \<and>
   getHitOverlap strandGraph hitOn1 (hitOn1\<lparr>m_nodeStart := 91, m_nodeEnd := 120\<rparr>) = 10 \<and>
   m_deBruijnGraphEdges strandGraph (m_node hitOn2, m_node hitOn1) = None \<and>
   getHitOverlap strandGraph hitOn2 hitOn1 = 0"
  using getHitOverlap_cases [of hitOn1 hitOn2 strandGraph]
        getHitOverlap_cases [of hitOn1 "hitOn1\<lparr>m_nodeStart := 91, m_nodeEnd := 120\<rparr>" strandGraph]
        getHitOverlap_cases [of hitOn2 hitOn1 strandGraph]
  by (simp add: hitOn1_def hitOn2_def strandGraph_def getLength_def getOverlap_def)

text \<open>
  What the formula for adjacent nodes counts. The starts are taken as they are (1-based),
  so the result is one less than the number of positions both spans cover in the first
  node's frame, when they cover any: 9 for the spec's example, whose hits share the 10
  positions 91 to 100.
\<close>

lemma getHitOverlap_adjacent_shared_bases:
  assumes "m_node hit1 \<noteq> m_node hit2"
    and "m_deBruijnGraphEdges G (m_node hit1, m_node hit2) = Some edge"
    and "shift = getLength (nodeStore G (m_node hit1)) - getOverlap (edgeStore G edge)"
  shows "getHitOverlap G hit1 hit2 =
         max 0 (int (card ({m_nodeStart hit1 .. m_nodeEnd hit1} \<inter>
                           {m_nodeStart hit2 + shift .. m_nodeEnd hit2 + shift})) - 1)"
  unfolding inter_atLeastAtMost_card using assms
  by (auto simp: getHitOverlap_def Let_def)

subsection \<open>The e-value product of a single hit\<close>

lemma SciNot_ctor_normalised:
  assumes "isNormalised s"
  shows "SciNot_ctor (m_coefficient s) (m_exponent s) = s"
proof (cases "m_coefficient s = 0")
  case True
  with assms have "m_exponent s = 0" by (simp add: isNormalised_def)
  with True show ?thesis by (simp add: SciNot_ctor_def)
next
  case False
  with assms have r: "1 \<le> \<bar>m_coefficient s\<bar>" "\<bar>m_coefficient s\<bar> < 10"
    by (auto simp: isNormalised_def)
  have "normalise_down (m_coefficient s) (m_exponent s) = (m_coefficient s, m_exponent s)"
    using r by (subst normalise_down.simps) simp
  moreover have "normalise_up (m_coefficient s) (m_exponent s) = (m_coefficient s, m_exponent s)"
    using r by (subst normalise_up.simps) simp
  ultimately show ?thesis using False by (simp add: SciNot_ctor_def)
qed

lemma getEvalueProduct_one_hit:
  assumes "m_hits this = [hit]" and "isNormalised (m_eValue hit)"
  shows "getEvalueProduct G this = Inr (m_eValue hit)"
proof -
  have "getEvalueProduct_step G [hit] 0 (1, 0) =
          Inr (getCoefficient (m_eValue hit), getExponent (m_eValue hit))"
    by (simp add: getEvalueProduct_step_def Let_def)
  then show ?thesis
    using SciNot_ctor_normalised [OF assms(2)]
    by (simp add: getEvalueProduct_def assms(1) getCoefficient_def getExponent_def)
qed

text \<open>
  Claim C8. When the hit chain is a single hit, \<open>getEvalueProduct\<close> is that hit's e-value:
  the hit has no previous and no next hit, nothing is removed, \<open>power\<close> is not called, and
  the product is built from 1.0 times the coefficient and 0 plus the exponent. The e-value
  of a hit is a \<open>SciNot\<close> object and as such normalised.
\<close>

theorem getEvalueProduct_single_hit:
  assumes "m_hits this = [hit]" and "isNormalised (m_eValue hit)"
  shows "getEvalueProduct G this = Inr (m_eValue hit)"
  using assms by (rule getEvalueProduct_one_hit)

theorem getEvalueProduct_single_hit_witness:
  "m_hits singleHitQueryPath = [hitOn1] \<and> isNormalised (m_eValue hitOn1) \<and>
   getEvalueProduct strandGraph singleHitQueryPath
     = Inr \<lparr>m_coefficient = 1, m_exponent = - 50\<rparr>"
proof -
  have h: "m_hits singleHitQueryPath = [hitOn1]" by (simp add: singleHitQueryPath_def)
  have n: "isNormalised (m_eValue hitOn1)" by (simp add: isNormalised_def hitOn1_def)
  from getEvalueProduct_single_hit [OF h n, of strandGraph] h n show ?thesis
    by (simp add: hitOn1_def)
qed

subsection \<open>Numbers in scientific notation: value and normal form\<close>








subsection \<open>The keys of the ranking, as the code computes them\<close>












subsection \<open>The ranking of query paths\<close>














lemma overlap_twoHit: "overlapToRemove_spec strandGraph [hitOn1, hitOn2] 0 = 9 / 2"
  "overlapToRemove_spec strandGraph [hitOn1, hitOn2] 1 = 9 / 2"
  by (simp_all add: overlapToRemove_spec_def getHitOverlap_def strandGraph_def hitOn1_def hitOn2_def
     getOverlap_def getLength_def Let_def)





subsection \<open>A query path without hits\<close>

text \<open>With a hit in the chain \<open>getHitQueryLength\<close> returns a length.\<close>

lemma getHitQueryLength_defined:
  "m_hits this \<noteq> [] \<Longrightarrow> \<exists>hitQueryLength. getHitQueryLength this = Inr hitQueryLength"
  by (simp add: getHitQueryLength_def Let_def)

text \<open>
  Claim C7 at a query path with no admitted hits. The mean percent identity is 0, the path
  query coverage is 0 and the relative length discrepancy is the largest double, as the
  claim says. \<open>getHitQueryLength\<close> however calls \<open>front()\<close> on the empty \<open>m_hits\<close>, and
  \<open>getRelativePathLength\<close> and \<open>getAbsolutePathLengthDifference\<close> call it without the
  test for an empty chain that \<open>getRelativeLengthDiscrepancy\<close> makes first.
\<close>

theorem zero_hits_metrics:
  "m_hits emptyQueryPath = [] \<and>
   getMeanHitPercIdentity emptyQueryPath = 0 \<and>
   getPathQueryCoverage emptyQueryPath = Inr 0 \<and>
   getRelativeLengthDiscrepancy emptyQueryPath = Inr DBL_MAX \<and>
   getHitQueryLength emptyQueryPath = Inl EmptyVectorAccess \<and>
   getRelativePathLength emptyQueryPath = Inl EmptyVectorAccess \<and>
   getAbsolutePathLengthDifference emptyQueryPath = Inl EmptyVectorAccess"
proof -
  have "m_hits emptyQueryPath = []"
    by (simp add: emptyQueryPath_def QueryPath_ctor_def QueryPath_nodeStep_def
          sortByQueryStart_def example_defs upt_rec)
  then show ?thesis
    by (simp add: getMeanHitPercIdentity_def getPathQueryCoverage_def
          getRelativeLengthDiscrepancy_def getHitQueryLength_def getRelativePathLength_def
          getAbsolutePathLengthDifference_def)
qed

section \<open>Positive edges\<close>

lemma not_positive_and_negative:
  "\<not> (isPositiveNode node \<and> isNegativeNode node)"
  by (auto simp: isPositiveNode_def isNegativeNode_def)

text \<open>
  Claim C9. In a graph that keeps the reverse-complement invariants, names its nodes
  uniquely and has one edge per pair of nodes: of an edge and its reverse complement,
  when they are two edges, exactly one is positive; an edge that is its own reverse
  complement is positive; an edge between two positive nodes is positive and an edge
  between two negative nodes is not. (For a mixed-strand pair the comparison of the
  starting nodes' names decides; the names differ because the two starting nodes do.)
\<close>

theorem isPositiveEdge_picks_one:
  fixes G :: "('n, 'e) AssemblyGraph"
  assumes inv: "reverseComplementInvariant G" and names: "uniqueNames G" and edges: "uniqueEdges G"
  shows "(rcEdge G e \<noteq> e \<longrightarrow> isPositiveEdge G e = (\<not> isPositiveEdge G (rcEdge G e))) \<and>
         (rcEdge G e = e \<longrightarrow> isPositiveEdge G e) \<and>
         (isPositiveNode (nodeStore G (m_startingNode (edgeStore G e))) \<and>
          isPositiveNode (nodeStore G (m_endingNode (edgeStore G e))) \<longrightarrow> isPositiveEdge G e) \<and>
         (isNegativeNode (nodeStore G (m_startingNode (edgeStore G e))) \<and>
          isNegativeNode (nodeStore G (m_endingNode (edgeStore G e))) \<longrightarrow> \<not> isPositiveEdge G e)"
proof -
  define s where "s = m_startingNode (edgeStore G e)"
  define t where "t = m_endingNode (edgeStore G e)"
  define e' where "e' = rcEdge G e"
  from inv have rs: "m_startingNode (edgeStore G e') = rcNode G t"
    and rt: "m_endingNode (edgeStore G e') = rcNode G s"
    and rr: "rcEdge G e' = e"
    by (simp_all add: reverseComplementInvariant_def e'_def s_def t_def)
  from inv have flip:
    "\<And>n. isPositiveNode (nodeStore G (rcNode G n)) = isNegativeNode (nodeStore G n)"
    "\<And>n. isNegativeNode (nodeStore G (rcNode G n)) = isPositiveNode (nodeStore G n)"
    and invol: "\<And>n. rcNode G (rcNode G n) = n"
    by (simp_all add: reverseComplementInvariant_def)
  note pn = not_positive_and_negative
  from inv have rs0: "m_startingNode (edgeStore G (m_reverseComplementEdge (edgeStore G e)))
                      = rcNode G (m_endingNode (edgeStore G e))"
    by (simp add: reverseComplementInvariant_def rcEdge_def)
  have pe: "isPositiveEdge G e =
      (if isPositiveNode (nodeStore G s) \<and> isPositiveNode (nodeStore G t) then True
       else if isNegativeNode (nodeStore G s) \<and> isNegativeNode (nodeStore G t) then False
       else if e = e' then True
       else getName (nodeStore G s) > getName (nodeStore G (rcNode G t)))"
    by (simp add: isPositiveEdge_def Let_def isOwnReverseComplement_def s_def t_def
          rs0 e'_def rcEdge_def)
  have own': "isOwnReverseComplement G e' = (e' = e)"
    using rr by (simp add: isOwnReverseComplement_def rcEdge_def)
  have nm': "m_startingNode (edgeStore G (m_reverseComplementEdge (edgeStore G e'))) = s"
    using rr by (simp add: rcEdge_def s_def)
  have pe': "isPositiveEdge G e' =
      (if isNegativeNode (nodeStore G t) \<and> isNegativeNode (nodeStore G s) then True
       else if isPositiveNode (nodeStore G t) \<and> isPositiveNode (nodeStore G s) then False
       else if e' = e then True
       else getName (nodeStore G (rcNode G t)) > getName (nodeStore G s))"
    unfolding isPositiveEdge_def Let_def own' nm' rs rt flip by simp
  have distinct_names: "getName (nodeStore G s) \<noteq> getName (nodeStore G (rcNode G t))" if "e' \<noteq> e"
  proof
    assume "getName (nodeStore G s) = getName (nodeStore G (rcNode G t))"
    with names have st: "s = rcNode G t" by (simp add: uniqueNames_def)
    then have "rcNode G s = t" by (simp add: invol)
    with st rs rt have "m_startingNode (edgeStore G e') = m_startingNode (edgeStore G e) \<and>
                        m_endingNode (edgeStore G e') = m_endingNode (edgeStore G e)"
      by (simp add: s_def t_def)
    with edges have "e' = e" by (simp add: uniqueEdges_def)
    with that show False by simp
  qed
  have own: "isPositiveEdge G e" if "e' = e"
  proof -
    from that rs have "s = rcNode G t" by (simp add: s_def)
    then have "isPositiveNode (nodeStore G s) = isNegativeNode (nodeStore G t)"
      "isNegativeNode (nodeStore G s) = isPositiveNode (nodeStore G t)"
      by (simp_all add: flip)
    with pn [of "nodeStore G t"] that show ?thesis
      unfolding pe by auto
  qed
  have one: "isPositiveEdge G e = (\<not> isPositiveEdge G e')" if "e' \<noteq> e"
    unfolding pe pe'
    using distinct_names [OF that] that pn [of "nodeStore G s"] pn [of "nodeStore G t"]
    by auto
  from one own pe pn [of "nodeStore G s"] show ?thesis
    unfolding e'_def s_def t_def by auto
qed

lemma strandGraph_invariants:
  "reverseComplementInvariant strandGraph" "uniqueNames strandGraph" "uniqueEdges strandGraph"
proof -
  show "reverseComplementInvariant strandGraph"
    unfolding reverseComplementInvariant_def
  proof (intro conjI allI)
    fix n :: strandNode
    show "rcNode strandGraph (rcNode strandGraph n) = n"
      by (cases n) (simp_all add: rcNode_def strandGraph_def getReverseComplement_def)
    show "isPositiveNode (nodeStore strandGraph (rcNode strandGraph n))
          = isNegativeNode (nodeStore strandGraph n)"
      by (cases n) (simp_all add: rcNode_def strandGraph_def getReverseComplement_def
            isPositiveNode_def isNegativeNode_def getSign_def)
    show "isNegativeNode (nodeStore strandGraph (rcNode strandGraph n))
          = isPositiveNode (nodeStore strandGraph n)"
      by (cases n) (simp_all add: rcNode_def strandGraph_def getReverseComplement_def
            isPositiveNode_def isNegativeNode_def getSign_def)
  next
    fix e :: strandEdge
    show "rcEdge strandGraph (rcEdge strandGraph e) = e"
      by (cases e) (simp_all add: rcEdge_def strandGraph_def)
    show "m_startingNode (edgeStore strandGraph (rcEdge strandGraph e))
          = rcNode strandGraph (m_endingNode (edgeStore strandGraph e))"
      by (cases e) (simp_all add: rcEdge_def rcNode_def strandGraph_def getReverseComplement_def)
    show "m_endingNode (edgeStore strandGraph (rcEdge strandGraph e))
          = rcNode strandGraph (m_startingNode (edgeStore strandGraph e))"
      by (cases e) (simp_all add: rcEdge_def rcNode_def strandGraph_def getReverseComplement_def)
  qed
  show "uniqueNames strandGraph"
    unfolding uniqueNames_def
  proof (intro allI impI)
    fix n1 n2 :: strandNode
    assume "getName (nodeStore strandGraph n1) = getName (nodeStore strandGraph n2)"
    then show "n1 = n2"
      by (cases n1; cases n2) (simp_all add: strandGraph_def getName_def)
  qed
  show "uniqueEdges strandGraph"
    unfolding uniqueEdges_def
  proof (intro allI impI)
    fix e1 e2 :: strandEdge
    assume "m_startingNode (edgeStore strandGraph e1) = m_startingNode (edgeStore strandGraph e2) \<and>
            m_endingNode (edgeStore strandGraph e1) = m_endingNode (edgeStore strandGraph e2)"
    then show "e1 = e2"
      by (cases e1; cases e2) (simp_all add: strandGraph_def)
  qed
qed

theorem isPositiveEdge_picks_one_witness:
  "reverseComplementInvariant strandGraph \<and> uniqueNames strandGraph \<and> uniqueEdges strandGraph \<and>
   rcEdge strandGraph E_1p_2m = E_2p_1m \<and> E_2p_1m \<noteq> E_1p_2m \<and>
   \<not> isPositiveEdge strandGraph E_1p_2m \<and> isPositiveEdge strandGraph E_2p_1m \<and>
   rcEdge strandGraph E_1p_1m = E_1p_1m \<and> isPositiveEdge strandGraph E_1p_1m \<and>
   isPositiveNode (nodeStore strandGraph (m_startingNode (edgeStore strandGraph E_1p_2p))) \<and>
   isPositiveNode (nodeStore strandGraph (m_endingNode (edgeStore strandGraph E_1p_2p))) \<and>
   isPositiveEdge strandGraph E_1p_2p \<and>
   isNegativeNode (nodeStore strandGraph (m_startingNode (edgeStore strandGraph E_2m_1m))) \<and>
   isNegativeNode (nodeStore strandGraph (m_endingNode (edgeStore strandGraph E_2m_1m))) \<and>
   \<not> isPositiveEdge strandGraph E_2m_1m"
proof -
  note i = strandGraph_invariants
  have r: "rcEdge strandGraph E_1p_2m = E_2p_1m" "rcEdge strandGraph E_1p_1m = E_1p_1m"
    by (simp_all add: rcEdge_def strandGraph_def)
  have p: "isPositiveEdge strandGraph E_2p_1m"
    by (simp add: isPositiveEdge_def strandGraph_def isPositiveNode_def isNegativeNode_def
          getSign_def getName_def isOwnReverseComplement_def)
  have s: "isPositiveNode (nodeStore strandGraph (m_startingNode (edgeStore strandGraph E_1p_2p)))"
    "isPositiveNode (nodeStore strandGraph (m_endingNode (edgeStore strandGraph E_1p_2p)))"
    "isNegativeNode (nodeStore strandGraph (m_startingNode (edgeStore strandGraph E_2m_1m)))"
    "isNegativeNode (nodeStore strandGraph (m_endingNode (edgeStore strandGraph E_2m_1m)))"
    by (simp_all add: strandGraph_def isPositiveNode_def isNegativeNode_def getSign_def)
  from isPositiveEdge_picks_one [OF i, of E_1p_2m] isPositiveEdge_picks_one [OF i, of E_1p_1m]
       isPositiveEdge_picks_one [OF i, of E_1p_2p] isPositiveEdge_picks_one [OF i, of E_2m_1m]
       i r p s
  show ?thesis by simp
qed

end
